theory Spec2Isabelle
  imports Main "HOL-Library.Word"
begin

unbundle bit_operations_syntax

section \<open>Data model\<close>

text \<open>
  The parser works on a byte slice (\<open>[]byte\<close>), modelled as \<open>string\<close>, a list of 8-bit
  characters.  The scanning functions of package \<open>bytes\<close> that take a rune predicate
  (\<open>IndexFunc\<close>, \<open>TrimLeftFunc\<close>) decode UTF-8, but every rune the predicates of this
  program accept is ASCII, and an ASCII byte is always decoded as a rune of its own, so
  scanning byte by byte finds the same positions.
\<close>

text \<open>
  Tag identities (\<open>atom.Atom\<close> of \<open>golang.org/x/net/html/atom\<close>).  \<open>Zero\<close> is the value 0,
  the identity of an unrecognised name; the named constructors are the constants that
  \<open>categorize\<close> mentions; \<open>Other n\<close> is any other entry of the table.
\<close>

datatype atom =
    Zero
  | Area | Base | Br | Col | Embed | Hr | Img | Input
  | Link | Meta | Param | Source | Track | Wbr
  | Template
  | Script | Style
  | Textarea | Title
  | Other nat

text \<open>
  The two collaborators of the parser that are not part of the repository are parameters
  of the model: the tag table (\<open>atom.Lookup\<close> and \<open>Atom.String\<close>) and the reference
  decoder (\<open>html.UnescapeString\<close>).
\<close>

record env =
  atom_Lookup :: "string \<Rightarrow> atom"
  atom_String :: "atom \<Rightarrow> string"
  UnescapeString :: "string \<Rightarrow> string"

datatype node_type =
  ErrorNode | TextNode | DocumentNode | ElementNode | CommentNode | DoctypeNode | RawNode

text \<open>\<open>html.Attribute\<close>; the parser never sets its namespace.\<close>

record attribute =
  Key :: string
  Val :: string

text \<open>
  \<open>html.Node\<close>: the fields the parser writes, and the list of children in the order of
  \<open>AppendChild\<close>.  A slot handed out by the arena is zeroed: type \<open>ErrorNode\<close> (0), empty
  data, atom 0, no attributes, no children.
\<close>

datatype node =
  Node (Type: node_type) (Data: string) (DataAtom: atom) (Attr: "attribute list")
       (Children: "node list")

definition zeroNode :: node where
  "zeroNode = Node ErrorNode [] Zero [] []"

fun AppendChild :: "node \<Rightarrow> node \<Rightarrow> node" where
  "AppendChild (Node ty d a at cs) c = Node ty d a at (cs @ [c])"

fun set_Type :: "node_type \<Rightarrow> node \<Rightarrow> node" where
  "set_Type ty (Node _ d a at cs) = Node ty d a at cs"

fun set_Data :: "string \<Rightarrow> node \<Rightarrow> node" where
  "set_Data d (Node ty _ a at cs) = Node ty d a at cs"

fun set_DataAtom :: "atom \<Rightarrow> node \<Rightarrow> node" where
  "set_DataAtom a (Node ty d _ at cs) = Node ty d a at cs"

fun append_Attr :: "attribute \<Rightarrow> node \<Rightarrow> node" where
  "append_Attr x (Node ty d a at cs) = Node ty d a (at @ [x]) cs"

text \<open>
  What a call can end with besides its result: an \<open>error\<close> value returned through the
  error result (one constructor for each message the parser builds), or a run-time panic
  of Go (an index or a slice bound out of range), which no function of the parser
  recovers.
\<close>

datatype error =
    EOFInOpeningTag
  | EOFInCommentTag
  | Unclosed string
  | UnexpectedInOpening char
  | UnexpectedInOpeningOf char string
  | UnexpectedSlashInOpeningOf string
  | UnexpectedInClosing char
  | UnexpectedInClosingOf char string

datatype failure = Error error | Panic

section \<open>Lexical scanner\<close>

definition whitespaceF :: "char \<Rightarrow> bool" where
  "whitespaceF r \<longleftrightarrow>
     r = CHR '' '' \<or> r = CHR 0x09 \<or> r = CHR 0x0A \<or> r = CHR 0x0C \<or> r = CHR 0x0D"

definition identInvalidF :: "char \<Rightarrow> bool" where
  "identInvalidF r \<longleftrightarrow>
     whitespaceF r \<or> r = CHR 0x00 \<or> r = CHR 0x22 \<or> r = CHR 0x27 \<or> r = CHR ''=''
       \<or> r = CHR ''/'' \<or> r = CHR ''>''"

definition unquotInvalidF :: "char \<Rightarrow> bool" where
  "unquotInvalidF r \<longleftrightarrow>
     whitespaceF r \<or> r = CHR 0x00 \<or> r = CHR 0x22 \<or> r = CHR 0x27 \<or> r = CHR ''=''
       \<or> r = CHR ''<'' \<or> r = CHR ''>''"

text \<open>
  \<open>bytes.IndexFunc\<close>, \<open>bytes.IndexByte\<close> and \<open>bytes.Index\<close> return -1 when nothing is
  found; the model returns \<open>None\<close> there.
\<close>

fun IndexFunc :: "string \<Rightarrow> (char \<Rightarrow> bool) \<Rightarrow> nat option" where
  "IndexFunc [] f = None"
| "IndexFunc (c # cs) f = (if f c then Some 0 else map_option Suc (IndexFunc cs f))"

definition IndexByte :: "string \<Rightarrow> char \<Rightarrow> nat option" where
  "IndexByte s c = IndexFunc s (\<lambda>x. x = c)"

definition HasPrefix :: "string \<Rightarrow> string \<Rightarrow> bool" where
  "HasPrefix s pre \<longleftrightarrow> take (length pre) s = pre"

fun Index :: "string \<Rightarrow> string \<Rightarrow> nat option" where
  "Index [] sep = (if sep = [] then Some 0 else None)"
| "Index (c # cs) sep =
     (if HasPrefix (c # cs) sep then Some 0 else map_option Suc (Index cs sep))"

definition skipSpace :: "string \<Rightarrow> string" where
  "skipSpace text = dropWhile whitespaceF text"

definition asciiLower :: "string \<Rightarrow> string" where
  "asciiLower text =
     map (\<lambda>ch. if 0x41 \<le> (of_char ch :: nat) \<and> (of_char ch :: nat) \<le> 0x5A
               then char_of ((of_char ch :: nat) OR 0x20) else ch) text"

definition nextIdent :: "env \<Rightarrow> string \<Rightarrow> failure + (string \<times> atom \<times> string)" where
  "nextIdent e text =
     (case IndexFunc text identInvalidF of
        None \<Rightarrow> Inl Panic
      | Some idx \<Rightarrow>
          let identB = take idx text; text' = drop idx text in
          if length identB = 0 then Inr ([], Zero, text')
          else
            let identB = asciiLower identB;
                identA = atom_Lookup e identB;
                identS = (if identA = Zero then identB else atom_String e identA)
            in Inr (identS, identA, text'))"

definition nextValue :: "string \<Rightarrow> failure + (string \<times> string)" where
  "nextValue text =
     (case text of
        [] \<Rightarrow> Inl Panic
      | c # text' \<Rightarrow>
          if c = CHR 0x27 \<or> c = CHR 0x22 then
            (case IndexByte text' c of
               None \<Rightarrow> Inl Panic
             | Some idx \<Rightarrow> Inr (take idx text', drop (idx + 1) text'))
          else
            (case IndexFunc text unquotInvalidF of
               None \<Rightarrow> Inl Panic
             | Some idx \<Rightarrow> Inr (take idx text, drop idx text)))"

section \<open>Tag classifier\<close>

datatype category = catVoid | catTemplate | catRaw | catEscapableRaw | catForeign | catNormal

fun categorize :: "atom \<Rightarrow> category" where
  "categorize Area = catVoid"
| "categorize Base = catVoid"
| "categorize Br = catVoid"
| "categorize Col = catVoid"
| "categorize Embed = catVoid"
| "categorize Hr = catVoid"
| "categorize Img = catVoid"
| "categorize Input = catVoid"
| "categorize Link = catVoid"
| "categorize Meta = catVoid"
| "categorize Param = catVoid"
| "categorize Source = catVoid"
| "categorize Track = catVoid"
| "categorize Wbr = catVoid"
| "categorize Template = catTemplate"
| "categorize Script = catRaw"
| "categorize Style = catRaw"
| "categorize Textarea = catEscapableRaw"
| "categorize Title = catEscapableRaw"
| "categorize _ = catNormal"

section \<open>Tree builder\<close>

definition textNode :: "env \<Rightarrow> node \<Rightarrow> string \<Rightarrow> node" where
  "textNode e parent text =
     (if length text > 0
      then AppendChild parent
             (set_Data (UnescapeString e text) (set_Type TextNode zeroNode))
      else parent)"

lemma IndexFunc_Some_less: "IndexFunc s f = Some i \<Longrightarrow> i < length s"
  by (induction s arbitrary: i) (auto split: if_splits)

lemma nextIdent_length:
  "nextIdent e text = Inr (s, a, rest) \<Longrightarrow>
     length rest \<le> length text \<and> rest \<noteq> [] \<and> (s \<noteq> [] \<longrightarrow> length rest < length text)"
  by (auto simp: nextIdent_def Let_def split: option.splits if_splits
           dest: IndexFunc_Some_less)

lemma nextValue_length: "nextValue text = Inr (v, rest) \<Longrightarrow> length rest \<le> length text"
  by (auto simp: nextValue_def split: list.splits option.splits if_splits)

lemma skipSpace_length: "length (skipSpace text) \<le> length text"
  by (simp add: skipSpace_def length_dropWhile_le)

lemma attrs_step_length:
  assumes "nextIdent e t = Inr (name, a, text1)" and "name \<noteq> []"
    and "skipSpace text1 = c2 # text2"
    and "(if c2 = CHR ''='' then nextValue (skipSpace text2) else Inr ([], c2 # text2))
           = Inr (val, text3)"
  shows "length (skipSpace (skipSpace text3)) < length t"
proof -
  have l1: "length text1 < length t"
    using assms(1,2) nextIdent_length[of e t name a text1] by simp
  have l2: "length (c2 # text2) \<le> length text1"
    using assms(3) skipSpace_length[of text1] by simp
  have l3: "length text3 \<le> length (c2 # text2)"
  proof (cases "c2 = CHR ''=''")
    case True
    then have "nextValue (skipSpace text2) = Inr (val, text3)" using assms(4) by simp
    then have "length text3 \<le> length (skipSpace text2)" by (rule nextValue_length)
    then show ?thesis using skipSpace_length[of text2] by simp
  next
    case False
    then show ?thesis using assms(4) by simp
  qed
  have "length (skipSpace (skipSpace text3)) \<le> length text3"
    using skipSpace_length[of text3] skipSpace_length[of "skipSpace text3"] by simp
  then show ?thesis using l1 l2 l3 by simp
qed

text \<open>
  The attribute loop of \<open>parseStartTag\<close> (\<open>for p.text[0] != '/' && p.text[0] != '>'\<close>).
  Reading \<open>p.text[0]\<close> of an empty slice panics.
\<close>

function parseStartTag_attrs :: "env \<Rightarrow> node \<Rightarrow> string \<Rightarrow> failure + (node \<times> string)" where
  "parseStartTag_attrs e node text =
     (case text of
        [] \<Rightarrow> Inl Panic
      | c # _ \<Rightarrow>
          if c \<noteq> CHR ''/'' \<and> c \<noteq> CHR ''>'' then
            (case nextIdent e text of
               Inl f \<Rightarrow> Inl f
             | Inr (name, _, text1) \<Rightarrow>
                 if name = [] then
                   (case text1 of
                      [] \<Rightarrow> Inl Panic
                    | c1 # _ \<Rightarrow> Inl (Error (UnexpectedInOpeningOf c1 (Data node))))
                 else
                   (case skipSpace text1 of
                      [] \<Rightarrow> Inl Panic
                    | c2 # text2 \<Rightarrow>
                        (case (if c2 = CHR ''=''
                               then nextValue (skipSpace text2)
                               else Inr ([], c2 # text2)) of
                           Inl f \<Rightarrow> Inl f
                         | Inr (val, text3) \<Rightarrow>
                             parseStartTag_attrs e
                               (append_Attr \<lparr>Key = name, Val = val\<rparr> node)
                               (skipSpace (skipSpace text3)))))
          else Inr (node, text))"
  by pat_completeness auto
termination
  by (relation "measure (\<lambda>(e, node, t). length t)")
     (auto simp del: list.size intro: attrs_step_length)

declare parseStartTag_attrs.simps [simp del]

text \<open>
  \<open>parseStartTag\<close> is called with the cursor at a \<open><\<close>; the result is the new element,
  the self-closing flag and the cursor after the \<open>>\<close>.
\<close>

definition parseStartTag :: "env \<Rightarrow> string \<Rightarrow> failure + (node \<times> bool \<times> string)" where
  "parseStartTag e text =
     (case nextIdent e (skipSpace (drop 1 text)) of
        Inl f \<Rightarrow> Inl f
      | Inr (elemS, elemA, rest) \<Rightarrow>
          if elemS = [] then
            (case rest of
               [] \<Rightarrow> Inl Panic
             | c # _ \<Rightarrow> Inl (Error (UnexpectedInOpening c)))
          else
            (case parseStartTag_attrs e
                    (set_DataAtom elemA (set_Data elemS (set_Type ElementNode zeroNode)))
                    (skipSpace rest) of
               Inl f \<Rightarrow> Inl f
             | Inr (node, text1) \<Rightarrow>
                 (case text1 of
                    [] \<Rightarrow> Inl Panic
                  | c # text2 \<Rightarrow>
                      if c = CHR ''/'' then
                        (case skipSpace text2 of
                           [] \<Rightarrow> Inl Panic
                         | c' # text3 \<Rightarrow>
                             if c' \<noteq> CHR ''>''
                             then Inl (Error (UnexpectedSlashInOpeningOf (Data node)))
                             else Inr (node, True, text3))
                      else Inr (node, False, text2))))"

text \<open>
  \<open>parseEndTag\<close> is called with the cursor at \<open></\<close>; \<open>start\<close> is \<open>None\<close> for the nil
  pointer.  The second component of the result is the cursor it leaves behind.
\<close>

definition parseEndTag :: "env \<Rightarrow> node option \<Rightarrow> string \<Rightarrow> failure + (bool \<times> string)" where
  "parseEndTag e start text =
     (case nextIdent e (drop 2 text) of
        Inl f \<Rightarrow> Inl f
      | Inr (elemS, elemA, rest) \<Rightarrow>
          if elemS = [] then
            (case rest of
               [] \<Rightarrow> Inl Panic
             | c # _ \<Rightarrow> Inl (Error (UnexpectedInClosing c)))
          else if (case start of
                     None \<Rightarrow> True
                   | Some st \<Rightarrow>
                       elemA \<noteq> DataAtom st \<or> (elemA = Zero \<and> elemS \<noteq> Data st))
          then Inr (False, rest)
          else
            (case skipSpace rest of
               [] \<Rightarrow> Inl Panic
             | c # text1 \<Rightarrow>
                 if c \<noteq> CHR ''>''
                 then Inl (Error (UnexpectedInClosingOf c elemS))
                 else Inr (True, text1)))"

text \<open>
  The loop of \<open>parseRaw\<close>, with the local buffer \<open>buf\<close> as an argument.  The result is the
  parent (with the text child appended when the element closes) and either the failure or
  the cursor after the closing tag.
\<close>

function parseRaw_loop ::
  "env \<Rightarrow> node \<Rightarrow> bool \<Rightarrow> string \<Rightarrow> string \<Rightarrow> node \<times> (failure + string)" where
  "parseRaw_loop e parent escapable buf text =
     (case IndexByte text CHR ''<'' of
        None \<Rightarrow> (parent, Inl (Error (Unclosed (Data parent))))
      | Some idx \<Rightarrow>
          let buf1 = buf @ take idx text; text1 = drop idx text in
          if length text1 < 2 then (parent, Inl (Error EOFInOpeningTag))
          else if text1 ! 1 = CHR ''/'' then
            (case parseEndTag e (Some parent) text1 of
               Inl f \<Rightarrow> (parent, Inl f)
             | Inr (ok, rest) \<Rightarrow>
                 if ok then
                   (if escapable then (textNode e parent buf1, Inr rest)
                    else if length buf1 > 0 then
                      (AppendChild parent (set_Data buf1 (set_Type TextNode zeroNode)),
                       Inr rest)
                    else (parent, Inr rest))
                 else parseRaw_loop e parent escapable (buf1 @ take 2 text1) (drop 2 text1))
          else parseRaw_loop e parent escapable (buf1 @ take 2 text1) (drop 2 text1))"
  by pat_completeness auto
termination
  by (relation "measure (\<lambda>(e, parent, escapable, buf, t). length t)") auto

declare parseRaw_loop.simps [simp del]

definition parseRaw :: "env \<Rightarrow> node \<Rightarrow> bool \<Rightarrow> string \<Rightarrow> node \<times> (failure + string)" where
  "parseRaw e parent escapable text = parseRaw_loop e parent escapable [] text"

text \<open>
  The \<open>case '!'\<close> arm of \<open>parse\<close>, up to the call of \<open>AppendChild\<close>: called with the cursor
  at \<open><!\<close>, it returns the comment or doctype node and the cursor after it.  Slicing with
  the index -1 of a search that found nothing panics.
\<close>

definition parse_declaration :: "env \<Rightarrow> string \<Rightarrow> failure + (node \<times> string)" where
  "parse_declaration e text =
     (let text1 = drop 2 text in
      if length text1 = 0 then Inl (Error EOFInCommentTag)
      else
        let node = set_Type CommentNode zeroNode in
        if HasPrefix text1 ''--'' then
          (let text2 = drop 2 text1 in
           case Index text2 ''-->'' of
             None \<Rightarrow> Inl Panic
           | Some idx \<Rightarrow> Inr (set_Data (take idx text2) node, drop (idx + 3) text2))
        else
          (case nextIdent e text1 of
             Inl f \<Rightarrow> Inl f
           | Inr (doctype, _, rest) \<Rightarrow>
               if doctype = ''doctype'' then
                 (let text2 = skipSpace rest in
                  case IndexByte text2 CHR ''>'' of
                    None \<Rightarrow> Inl Panic
                  | Some idx \<Rightarrow>
                      Inr (set_Data (take idx text2) (set_Type DoctypeNode node),
                           drop (idx + 1) text2))
               else
                 (case IndexByte text1 CHR ''>'' of
                    None \<Rightarrow> Inl Panic
                  | Some idx \<Rightarrow> Inr (set_Data (take idx text1) node, drop (idx + 1) text1))))"

lemma parseStartTag_attrs_length:
  "parseStartTag_attrs e node t = Inr (node', t') \<Longrightarrow> length t' \<le> length t"
proof (induction e node t rule: parseStartTag_attrs.induct)
  case (1 e node t)
  show ?case
  proof (cases "\<exists>c cs. t = c # cs \<and> c \<noteq> CHR ''/'' \<and> c \<noteq> CHR ''>''")
    case False
    then show ?thesis
      using "1.prems" by (subst (asm) parseStartTag_attrs.simps) (auto split: list.splits)
  next
    case True
    then obtain c cs where t: "t = c # cs" "c \<noteq> CHR ''/'' \<and> c \<noteq> CHR ''>''" by blast
    from "1.prems" t obtain name a text1 c2 text2 val text3 where
      st: "nextIdent e t = Inr (name, a, text1)" "name \<noteq> []"
          "skipSpace text1 = c2 # text2"
          "(if c2 = CHR ''='' then nextValue (skipSpace text2) else Inr ([], c2 # text2))
             = Inr (val, text3)"
      and rec: "parseStartTag_attrs e (append_Attr \<lparr>Key = name, Val = val\<rparr> node)
                  (skipSpace (skipSpace text3)) = Inr (node', t')"
      by (subst (asm) parseStartTag_attrs.simps)
         (auto split: list.splits sum.splits prod.splits if_splits)
    have "length t' \<le> length (skipSpace (skipSpace text3))"
      using "1.IH"[OF t(1) t(2) st(1) refl refl st(2) st(3) st(4) refl rec] .
    then show ?thesis using attrs_step_length[OF st] by simp
  qed
qed

lemma parseStartTag_length:
  assumes "parseStartTag e text = Inr (node, sc, rest)"
  shows "length rest < length text"
proof -
  from assms obtain elemS elemA r1 n1 t1 where
    ni: "nextIdent e (skipSpace (drop 1 text)) = Inr (elemS, elemA, r1)" "elemS \<noteq> []"
    and at: "parseStartTag_attrs e n1 (skipSpace r1) = Inr (node, t1)"
    and fin: "(\<exists>c. t1 = c # rest) \<or> (\<exists>t2. t1 = CHR ''/'' # t2 \<and> skipSpace t2 = CHR ''>'' # rest)"
    unfolding parseStartTag_def
    by (auto split: sum.splits prod.splits if_splits list.splits)
  have "length rest < length t1"
  proof -
    have "length rest < length t2" if "skipSpace t2 = CHR ''>'' # rest" for t2
      using that skipSpace_length[of t2] by simp
    then show ?thesis using fin by force
  qed
  moreover have "length r1 < length (skipSpace (drop 1 text))"
    using nextIdent_length[OF ni(1)] ni(2) by auto
  moreover have "length (skipSpace (drop 1 text)) \<le> length text"
    using skipSpace_length[of "drop 1 text"] by simp
  moreover have "length t1 \<le> length r1"
    using parseStartTag_attrs_length[OF at] skipSpace_length[of r1] by simp
  ultimately show ?thesis by simp
qed

lemma parseEndTag_length:
  assumes "parseEndTag e start text = Inr (ok, rest)"
  shows "length rest \<le> length text"
proof -
  from assms obtain elemS elemA r1 where
    ni: "nextIdent e (drop 2 text) = Inr (elemS, elemA, r1)"
    and fin: "rest = r1 \<or> (\<exists>c. skipSpace r1 = c # rest)"
    unfolding parseEndTag_def
    by (auto split: sum.splits prod.splits if_splits list.splits)
  have "length r1 \<le> length text"
    using nextIdent_length[OF ni] by auto
  moreover have "length rest \<le> length r1"
  proof -
    have "length rest \<le> length r1" if "skipSpace r1 = c # rest" for c
      using that skipSpace_length[of r1] by simp
    then show ?thesis using fin by force
  qed
  ultimately show ?thesis by simp
qed

lemma Index_Some_le: "Index s sep = Some i \<Longrightarrow> i \<le> length s"
  by (induction s arbitrary: i) (auto split: if_splits)
lemma parse_declaration_length:
  assumes "parse_declaration e text = Inr (node, rest)"
  shows "length rest < length text"
proof -
  let ?t1 = "drop 2 text"
  have pos: "0 < length ?t1"
    using assms unfolding parse_declaration_def Let_def by (auto split: if_splits)
  have "length rest \<le> length ?t1"
  proof (cases "HasPrefix ?t1 ''--''")
    case True
    then show ?thesis
      using assms pos unfolding parse_declaration_def Let_def
      by (auto split: option.splits)
  next
    case False
    then obtain d a r where ni: "nextIdent e ?t1 = Inr (d, a, r)"
      using assms pos unfolding parse_declaration_def Let_def
      by (auto split: sum.splits)
    have "length (skipSpace r) \<le> length ?t1"
      using nextIdent_length[OF ni] skipSpace_length[of r] by auto
    then show ?thesis
      using assms pos False ni unfolding parse_declaration_def Let_def
      by (auto split: option.splits if_splits)
  qed
  then show ?thesis using pos by simp
qed

lemma parseRaw_loop_length:
  "parseRaw_loop e parent escapable buf t = (parent', Inr rest) \<Longrightarrow>
     length rest \<le> length t"
proof (induction e parent escapable buf t rule: parseRaw_loop.induct)
  case (1 e parent escapable buf t)
  from "1.prems" obtain idx where idx: "IndexByte t CHR ''<'' = Some idx"
    by (subst (asm) parseRaw_loop.simps) (auto split: option.splits)
  let ?t1 = "drop idx t"
  have ge: "\<not> length ?t1 < 2"
    using "1.prems" idx by (subst (asm) parseRaw_loop.simps) (auto simp: Let_def split: if_splits)
  show ?case
  proof (cases "?t1 ! 1 = CHR ''/''")
    case False
    have "parseRaw_loop e parent escapable ((buf @ take idx t) @ take 2 ?t1) (drop 2 ?t1)
            = (parent', Inr rest)"
      using "1.prems" idx ge False
      by (subst (asm) parseRaw_loop.simps) (simp add: Let_def)
    from "1.IH"(2)[OF idx refl refl ge False this] show ?thesis by simp
  next
    case True
    show ?thesis
    proof (cases "parseEndTag e (Some parent) ?t1")
      case (Inl f)
      then show ?thesis
        using "1.prems" idx ge True
        by (subst (asm) parseRaw_loop.simps) (simp add: Let_def)
    next
      case (Inr r)
      obtain ok r1 where r: "r = (ok, r1)" by (cases r)
      show ?thesis
      proof (cases ok)
        case True
        then have "rest = r1"
          using "1.prems" idx ge \<open>?t1 ! 1 = CHR ''/''\<close> Inr r
          by (subst (asm) parseRaw_loop.simps) (auto simp: Let_def split: if_splits)
        then show ?thesis
          using parseEndTag_length[of e "Some parent" ?t1 ok r1] Inr r by simp
      next
        case False
        have "parseRaw_loop e parent escapable ((buf @ take idx t) @ take 2 ?t1)
                (drop 2 ?t1) = (parent', Inr rest)"
          using "1.prems" idx ge \<open>?t1 ! 1 = CHR ''/''\<close> Inr r False
          by (subst (asm) parseRaw_loop.simps) (simp add: Let_def)
        from "1.IH"(1)[OF idx refl refl ge \<open>?t1 ! 1 = CHR ''/''\<close> Inr r[symmetric] False this]
        show ?thesis by simp
      qed
    qed
  qed
qed

text \<open>
  \<open>parse\<close>: the cursor \<open>p.text\<close> is the last argument.  The result is the parent with the
  children appended so far, and either the failure or the cursor the call leaves behind.
  A new element is appended to its parent before its body is parsed and filled in place
  afterwards; the model appends it once its body has been parsed, also when the body
  fails, which gives the same tree.
\<close>

function parse :: "env \<Rightarrow> bool \<Rightarrow> node \<Rightarrow> string \<Rightarrow> node \<times> (failure + string)" where
  "parse e root parent text =
     (case IndexByte text CHR ''<'' of
        None \<Rightarrow>
          if \<not> root then (parent, Inl (Error (Unclosed (Data parent))))
          else (textNode e parent text, Inr text)
      | Some idx \<Rightarrow>
          let parent1 = textNode e parent (take idx text); text1 = drop idx text in
          if length text1 < 2 then (parent1, Inl (Error EOFInOpeningTag))
          else if text1 ! 1 = CHR ''/'' then
            (case parseEndTag e (if root then None else Some parent1) text1 of
               Inl f \<Rightarrow> (parent1, Inl f)
             | Inr (ok, rest) \<Rightarrow>
                 if ok then (parent1, Inr rest)
                 else (parent1, Inl (Error (Unclosed (Data parent1)))))
          else if text1 ! 1 = CHR ''!'' then
            (case parse_declaration e text1 of
               Inl f \<Rightarrow> (parent1, Inl f)
             | Inr (node, rest) \<Rightarrow> parse e root (AppendChild parent1 node) rest)
          else
            (case parseStartTag e text1 of
               Inl f \<Rightarrow> (parent1, Inl f)
             | Inr (node, selfClosing, rest) \<Rightarrow>
                 (case (if selfClosing then (node, Inr rest)
                        else
                          let cat = categorize (DataAtom node) in
                          if cat = catVoid then (node, Inr rest)
                          else if cat = catRaw then parseRaw e node False rest
                          else if cat = catEscapableRaw then parseRaw e node True rest
                          else if cat = catNormal \<or> cat = catTemplate \<or> cat = catForeign
                          then parse e False node rest
                          else (node, Inl Panic)) of
                    (node', Inl f) \<Rightarrow> (AppendChild parent1 node', Inl f)
                  | (node', Inr rest') \<Rightarrow> parse e root (AppendChild parent1 node') rest')))"
  by pat_completeness auto

termination
proof -
  have len: "length rest \<le> length t"
    if "parse_dom (e, root, parent, t)" and "parse e root parent t = (parent', Inr rest)"
    for e root parent t parent' rest
    using that
  proof (induction e root parent t arbitrary: parent' rest rule: parse.pinduct)
    case (1 e root parent t)
    note dom = "1.hyps" and IH = "1.IH" and pr = "1.prems"
    show ?case
    proof (cases "IndexByte t CHR ''<''")
      case None
      then have "rest = t"
        using pr by (subst (asm) parse.psimps[OF dom]) (auto split: if_splits)
      then show ?thesis by simp
    next
      case (Some idx)
      let ?p1 = "textNode e parent (take idx t)"
      let ?t1 = "drop idx t"
      have t1le: "length ?t1 \<le> length t" by simp
      note unf = pr[unfolded parse.psimps[OF dom] Some option.case Let_def]
      have ge: "\<not> length ?t1 < 2"
        using unf by (auto split: if_splits)
      show ?thesis
      proof (cases "?t1 ! 1 = CHR ''/''")
        case True
        then obtain ok where "parseEndTag e (if root then None else Some ?p1) ?t1 = Inr (ok, rest)"
          using unf ge by (auto split: sum.splits prod.splits if_splits)
        from parseEndTag_length[OF this] show ?thesis using t1le by simp
      next
        case c1: False
        show ?thesis
        proof (cases "?t1 ! 1 = CHR ''!''")
          case True
          then obtain node r where pd: "parse_declaration e ?t1 = Inr (node, r)"
            and rec: "parse e root (AppendChild ?p1 node) r = (parent', Inr rest)"
            using unf ge c1 by (auto split: sum.splits prod.splits)
          have "length rest \<le> length r"
            using IH(1)[OF Some refl refl ge c1 True pd refl rec] .
          then show ?thesis using parse_declaration_length[OF pd] t1le by simp
        next
          case c2: False
          obtain node sc r where ps: "parseStartTag e ?t1 = Inr (node, sc, r)"
            using unf ge c1 c2 by (auto split: sum.splits prod.splits)
          let ?c = "categorize (DataAtom node)"
          let ?body = "(if sc then (node, Inr r)
             else if ?c = catVoid then (node, Inr r)
                  else if ?c = catRaw then parseRaw e node False r
                  else if ?c = catEscapableRaw then parseRaw e node True r
                  else if ?c = catNormal \<or> ?c = catTemplate \<or> ?c = catForeign
                  then parse e False node r
                  else (node, Inl Panic))"
          obtain node' r' where body: "?body = (node', Inr r')"
            and rec: "parse e root (AppendChild ?p1 node') r' = (parent', Inr rest)"
            using unf ge c1 c2 ps by (auto split: sum.splits prod.splits)
          have bodyL: "(node', Inr r') = (if sc then (node, Inr r)
             else let cat = categorize (DataAtom node)
               in if cat = catVoid then (node, Inr r)
                  else if cat = catRaw then parseRaw e node False r
                  else if cat = catEscapableRaw then parseRaw e node True r
                  else if cat = catNormal \<or> cat = catTemplate \<or> cat = catForeign
                  then parse e False node r
                  else (node, Inl Panic))"
            unfolding Let_def using body by (rule sym)
          have "length rest \<le> length r'"
            using IH(3)[OF Some refl refl ge c1 c2 ps refl refl bodyL refl rec] .
          moreover have "length r' \<le> length r"
          proof (cases "sc \<or> categorize (DataAtom node) = catVoid")
            case True
            then show ?thesis using body by (auto simp: Let_def split: if_splits)
          next
            case nv: False
            show ?thesis
            proof (cases "categorize (DataAtom node) = catRaw
                          \<or> categorize (DataAtom node) = catEscapableRaw")
              case True
              then obtain esc where "parseRaw e node esc r = (node', Inr r')"
                using body nv by (auto simp: Let_def split: if_splits)
              then show ?thesis
                unfolding parseRaw_def by (rule parseRaw_loop_length)
            next
              case nr: False
              have cat: "categorize (DataAtom node) = catNormal
                         \<or> categorize (DataAtom node) = catTemplate
                         \<or> categorize (DataAtom node) = catForeign"
                using nv nr by (cases "categorize (DataAtom node)") auto
              have inner: "parse e False node r = (node', Inr r')"
                using body nv nr cat by (auto simp: Let_def split: if_splits)
              show ?thesis
                using IH(2)[OF Some refl refl ge c1 c2 ps refl refl _ refl _ _ _ cat inner]
                  nv nr by simp
            qed
          qed
          ultimately show ?thesis using parseStartTag_length[OF ps] t1le by simp
        qed
      qed
    qed
  qed
  show ?thesis
  proof (relation "measure (\<lambda>(e, root, parent, t). length t)")
    show "wf (measure (\<lambda>(e, root, parent, t). length t))" by simp
  next
    fix e :: env and root :: bool and parent x xaa :: node and t xa y :: string
      and idx :: nat and b :: "node \<times> string"
    assume "xa = drop idx t" "parse_declaration e xa = Inr b" "(xaa, y) = b"
    then have "parse_declaration e (drop idx t) = Inr (xaa, y)" by simp
    from parse_declaration_length[OF this]
    show "((e, root, AppendChild x xaa, y), e, root, parent, t)
            \<in> measure (\<lambda>(e, root, parent, t). length t)"
      by simp
  next
    fix e :: env and root :: bool and parent xaa :: node and t xa ya :: string
      and idx :: nat and b :: "node \<times> bool \<times> string" and y :: "bool \<times> string" and xab :: bool
    assume "xa = drop idx t" "parseStartTag e xa = Inr b" "(xaa, y) = b" "(xab, ya) = y"
    then have "parseStartTag e (drop idx t) = Inr (xaa, xab, ya)" by auto
    from parseStartTag_length[OF this]
    show "((e, False, xaa, ya), e, root, parent, t)
            \<in> measure (\<lambda>(e, root, parent, t). length t)"
      by simp
  next
    fix e :: env and root :: bool and parent x xaa xac :: node and t xa ya ba :: string
      and idx :: nat and b :: "node \<times> bool \<times> string" and y :: "bool \<times> string" and xab :: bool
      and yb :: "failure + string"
    assume xa: "xa = drop idx t" and ps0: "parseStartTag e xa = Inr b"
      and b: "(xaa, y) = b" and y: "(xab, ya) = y"
      and body0: "(xac, yb) =
        (if xab then (xaa, Inr ya)
         else let cat = categorize (DataAtom xaa)
              in if cat = catVoid then (xaa, Inr ya)
                 else if cat = catRaw then parseRaw e xaa False ya
                 else if cat = catEscapableRaw then parseRaw e xaa True ya
                 else if cat = catNormal \<or> cat = catTemplate \<or> cat = catForeign
                 then parse e False xaa ya
                 else (xaa, Inl Panic))"
      and yb: "yb = Inr ba"
      and dom: "\<And>xb. \<lbrakk>\<not> xab; xb = categorize (DataAtom xaa); xb \<noteq> catVoid;
                 xb \<noteq> catRaw; xb \<noteq> catEscapableRaw;
                 xb = catNormal \<or> xb = catTemplate \<or> xb = catForeign\<rbrakk>
                \<Longrightarrow> parse_dom (e, False, xaa, ya)"
    have ps: "parseStartTag e (drop idx t) = Inr (xaa, xab, ya)"
      using xa ps0 b y by auto
    let ?c = "categorize (DataAtom xaa)"
    have body: "(if xab then (xaa, Inr ya)
         else if ?c = catVoid then (xaa, Inr ya)
                 else if ?c = catRaw then parseRaw e xaa False ya
                 else if ?c = catEscapableRaw then parseRaw e xaa True ya
                 else if ?c = catNormal \<or> ?c = catTemplate \<or> ?c = catForeign
                 then parse e False xaa ya
                 else (xaa, Inl Panic)) = (xac, Inr ba)"
      using body0[unfolded Let_def yb] by (rule sym)
    have "length ba \<le> length ya"
    proof (cases "xab \<or> ?c = catVoid")
      case True
      then show ?thesis using body by (auto split: if_splits)
    next
      case nv: False
      show ?thesis
      proof (cases "?c = catRaw \<or> ?c = catEscapableRaw")
        case True
        then obtain esc where "parseRaw e xaa esc ya = (xac, Inr ba)"
          using body nv by (auto split: if_splits)
        then show ?thesis
          unfolding parseRaw_def by (rule parseRaw_loop_length)
      next
        case nr: False
        have cat: "?c = catNormal \<or> ?c = catTemplate \<or> ?c = catForeign"
          using nv nr by (cases ?c) auto
        have inner: "parse e False xaa ya = (xac, Inr ba)"
          using body nv nr cat by (auto split: if_splits)
        have "parse_dom (e, False, xaa, ya)"
          using dom[OF _ refl _ _ _ cat] nv nr by simp
        from len[OF this inner] show ?thesis .
      qed
    qed
    then show "((e, root, AppendChild x xac, ba), e, root, parent, t)
            \<in> measure (\<lambda>(e, root, parent, t). length t)"
      using parseStartTag_length[OF ps] by simp
  qed
qed

declare parse.simps [simp del]

text \<open>\<open>Parse\<close> returns the error only; \<open>None\<close> is the nil error.\<close>

definition Parse :: "env \<Rightarrow> node \<Rightarrow> string \<Rightarrow> node \<times> failure option" where
  "Parse e parent text =
     (case parse e True parent text of
        (parent', Inl f) \<Rightarrow> (parent', Some f)
      | (parent', Inr _) \<Rightarrow> (parent', None))"

text \<open>
  A small tag table and a decoder for running the parser on concrete inputs: the entries
  that \<open>categorize\<close> mentions and a few ordinary element names.  The decoder knows the
  references \<open>&amp;\<close> and \<open>&quot;\<close> only.
\<close>

definition example_table :: "(string \<times> atom) list" where
  "example_table =
     [(''area'', Area), (''base'', Base), (''br'', Br), (''col'', Col), (''embed'', Embed),
      (''hr'', Hr), (''img'', Img), (''input'', Input), (''link'', Link), (''meta'', Meta),
      (''param'', Param), (''source'', Source), (''track'', Track), (''wbr'', Wbr),
      (''template'', Template), (''script'', Script), (''style'', Style),
      (''textarea'', Textarea), (''title'', Title),
      (''a'', Other 1), (''b'', Other 2), (''div'', Other 3), (''p'', Other 4)]"

fun example_decode :: "string \<Rightarrow> string" where
  "example_decode [] = []"
| "example_decode (c # cs) =
     (if c = CHR ''&'' \<and> take 4 cs = ''amp;'' then CHR ''&'' # example_decode (drop 4 cs)
      else if c = CHR ''&'' \<and> take 5 cs = ''quot;'' then CHR 0x22 # example_decode (drop 5 cs)
      else c # example_decode cs)"

definition example_env :: env where
  "example_env =
     \<lparr>atom_Lookup = (\<lambda>s. case map_of example_table s of None \<Rightarrow> Zero | Some a \<Rightarrow> a),
      atom_String = (\<lambda>a. case map_of (map (\<lambda>(s, a). (a, s)) example_table) a of
                            None \<Rightarrow> [] | Some s \<Rightarrow> s),
      UnescapeString = example_decode\<rparr>"

definition doc :: node where
  "doc = Node DocumentNode [] Zero [] []"

text \<open>
  The switch on the category in \<open>parse\<close>, as a function of the category: what is done
  with the body of a freshly opened element that is not self-closing.
\<close>

definition parse_body :: "env \<Rightarrow> category \<Rightarrow> node \<Rightarrow> string \<Rightarrow> node \<times> (failure + string)" where
  "parse_body e cat node rest =
     (if cat = catVoid then (node, Inr rest)
      else if cat = catRaw then parseRaw e node False rest
      else if cat = catEscapableRaw then parseRaw e node True rest
      else if cat = catNormal \<or> cat = catTemplate \<or> cat = catForeign
      then parse e False node rest
      else (node, Inl Panic))"

text \<open>
  One iteration of the loop of \<open>parse\<close>, for the iterations after which the loop goes
  on: the text before the next \<open><\<close> is emitted, and a declaration, or an element with
  its body, is read and appended.  The result is the parent and the cursor of the next
  iteration; it is \<open>None\<close> where the iteration ends the invocation (no \<open><\<close> left, a
  closing tag, or a failure).
\<close>

definition parse_iteration :: "env \<Rightarrow> node \<times> string \<Rightarrow> (node \<times> string) option" where
  "parse_iteration e st =
     (case st of (parent, text) \<Rightarrow>
      case IndexByte text CHR ''<'' of
        None \<Rightarrow> None
      | Some idx \<Rightarrow>
          let parent1 = textNode e parent (take idx text); text1 = drop idx text in
          if length text1 < 2 then None
          else if text1 ! 1 = CHR ''/'' then None
          else if text1 ! 1 = CHR ''!'' then
            (case parse_declaration e text1 of
               Inl f \<Rightarrow> None
             | Inr (node, rest) \<Rightarrow> Some (AppendChild parent1 node, rest))
          else
            (case parseStartTag e text1 of
               Inl f \<Rightarrow> None
             | Inr (node, selfClosing, rest) \<Rightarrow>
                 (case (if selfClosing then (node, Inr rest)
                        else parse_body e (categorize (DataAtom node)) node rest) of
                    (node', Inl f) \<Rightarrow> None
                  | (node', Inr rest') \<Rightarrow> Some (AppendChild parent1 node', rest'))))"

fun iterations :: "('s \<Rightarrow> 's option) \<Rightarrow> nat \<Rightarrow> 's \<Rightarrow> 's option" where
  "iterations f 0 st = Some st"
| "iterations f (Suc n) st = (case f st of None \<Rightarrow> None | Some st' \<Rightarrow> iterations f n st')"

text \<open>
  One iteration of the loop of \<open>parseRaw\<close> after which the loop goes on, on the buffer
  and the cursor: the bytes before the next \<open><\<close> and the two bytes at it are moved to
  the buffer, when these are not the start of the closing tag of \<open>parent\<close>.
\<close>

definition parseRaw_iteration ::
  "env \<Rightarrow> node \<Rightarrow> string \<times> string \<Rightarrow> (string \<times> string) option" where
  "parseRaw_iteration e parent st =
     (case st of (buf, text) \<Rightarrow>
      case IndexByte text CHR ''<'' of
        None \<Rightarrow> None
      | Some idx \<Rightarrow>
          let buf1 = buf @ take idx text; text1 = drop idx text in
          if length text1 < 2 then None
          else if text1 ! 1 = CHR ''/'' then
            (case parseEndTag e (Some parent) text1 of
               Inl f \<Rightarrow> None
             | Inr (ok, rest) \<Rightarrow>
                 if ok then None else Some (buf1 @ take 2 text1, drop 2 text1))
          else Some (buf1 @ take 2 text1, drop 2 text1))"

text \<open>
  The input ends inside the body of an element named \<open>name\<close>: the loop of the invocation
  runs to a cursor without \<open><\<close> (and the invocation is not the root), or it runs to the
  start tag of an element that is not self-closing and whose own body, raw text or
  markup, ends that way.
\<close>

inductive ends_open :: "env \<Rightarrow> bool \<Rightarrow> node \<Rightarrow> string \<Rightarrow> string \<Rightarrow> bool" for e where
  here:
    "iterations (parse_iteration e) n (parent, t) = Some (parent', t') \<Longrightarrow>
     IndexByte t' CHR ''<'' = None \<Longrightarrow>
     ends_open e False parent t (Data parent)"
| raw:
    "iterations (parse_iteration e) n (parent, t) = Some (parent', pre @ CHR ''<'' # c # s) \<Longrightarrow>
     CHR ''<'' \<notin> set pre \<Longrightarrow> c \<noteq> CHR ''/'' \<Longrightarrow> c \<noteq> CHR ''!'' \<Longrightarrow>
     parseStartTag e (CHR ''<'' # c # s) = Inr (node, False, r) \<Longrightarrow>
     categorize (DataAtom node) = catRaw \<or> categorize (DataAtom node) = catEscapableRaw \<Longrightarrow>
     iterations (parseRaw_iteration e node) m ([], r) = Some (buf', r') \<Longrightarrow>
     IndexByte r' CHR ''<'' = None \<Longrightarrow>
     ends_open e root parent t (Data node)"
| nested:
    "iterations (parse_iteration e) n (parent, t) = Some (parent', pre @ CHR ''<'' # c # s) \<Longrightarrow>
     CHR ''<'' \<notin> set pre \<Longrightarrow> c \<noteq> CHR ''/'' \<Longrightarrow> c \<noteq> CHR ''!'' \<Longrightarrow>
     parseStartTag e (CHR ''<'' # c # s) = Inr (node, False, r) \<Longrightarrow>
     categorize (DataAtom node) = catNormal \<or> categorize (DataAtom node) = catTemplate
       \<or> categorize (DataAtom node) = catForeign \<Longrightarrow>
     ends_open e False node r name \<Longrightarrow>
     ends_open e root parent t name"

code_pred ends_open .

text \<open>Two elements to run the parser on: a raw-text one and one with an unknown tag.\<close>

definition scriptNode :: node where
  "scriptNode = Node ElementNode ''script'' Script [] []"

definition fooNode :: node where
  "fooNode = Node ElementNode ''foo'' Zero [] []"

text \<open>
  \<open>AppendChild\<close> for a list of children, and the property of a tree that none of its
  Text nodes has an empty payload.
\<close>

fun append_children :: "node \<Rightarrow> node list \<Rightarrow> node" where
  "append_children (Node ty d a at cs) kids = Node ty d a at (cs @ kids)"

fun no_empty_text :: "node \<Rightarrow> bool" where
  "no_empty_text (Node ty d a at cs) \<longleftrightarrow>
     (ty = TextNode \<longrightarrow> d \<noteq> []) \<and> (\<forall>c \<in> set cs. no_empty_text c)"



section \<open>Node arena\<close>

text \<open>
  The node arena.  Go's heap of node arrays is a list of blocks, one for each call of
  \<open>make\<close>; the address of a node slot is the number of its block and its index there.
  A slice value names a block, an offset and a length; the nil slice has length 0.
\<close>

type_synonym heap = "node list list"

type_synonym addr = "nat \<times> nat"

record arena =
  blk :: nat
  off :: nat
  len :: nat

definition nil_arena :: arena where
  "nil_arena = \<lparr>blk = 0, off = 0, len = 0\<rparr>"

definition arenaSize :: nat where
  "arenaSize = 64"

text \<open>\<open>make(arena, n)\<close>: a new block of \<open>n\<close> zeroed nodes, and the slice of all of it.\<close>

definition make_arena :: "heap \<Rightarrow> nat \<Rightarrow> heap \<times> arena" where
  "make_arena h n = (h @ [replicate n zeroNode], \<lparr>blk = length h, off = 0, len = n\<rparr>)"

definition newNode :: "heap \<Rightarrow> arena \<Rightarrow> addr \<times> heap \<times> arena" where
  "newNode h a =
     (let (h1, a1) = (if len a = 0 then make_arena h arenaSize else (h, a))
      in ((blk a1, off a1), h1, a1\<lparr>off := off a1 + 1, len := len a1 - 1\<rparr>))"

definition load :: "heap \<Rightarrow> addr \<Rightarrow> node" where
  "load h p = h ! fst p ! snd p"

definition store :: "heap \<Rightarrow> addr \<Rightarrow> node \<Rightarrow> heap" where
  "store h p v = h[fst p := (h ! fst p)[snd p := v]]"

text \<open>
  A program that uses several arenas on one heap: it calls \<open>newNode\<close> on the arena of
  parser \<open>k\<close>, or writes a node through a pointer that some call of \<open>newNode\<close> has
  returned (there is no other pointer into a block).  \<open>handed\<close> records which call
  returned which address.
\<close>

datatype op = NewNode nat | Write addr node

record state =
  heap :: heap
  arenas :: "nat \<Rightarrow> arena"
  handed :: "(nat \<times> addr) list"

definition init_state :: "heap \<Rightarrow> state" where
  "init_state h0 = \<lparr>heap = h0, arenas = (\<lambda>k. nil_arena), handed = []\<rparr>"

fun step :: "op \<Rightarrow> state \<Rightarrow> state" where
  "step (NewNode k) s =
     (case newNode (heap s) (arenas s k) of
        (p, h', a') \<Rightarrow>
          \<lparr>heap = h', arenas = (arenas s)(k := a'), handed = handed s @ [(k, p)]\<rparr>)"
| "step (Write p v) s =
     (if p \<in> snd ` set (handed s) then s\<lparr>heap := store (heap s) p v\<rparr> else s)"

fun exec :: "op list \<Rightarrow> state \<Rightarrow> state" where
  "exec [] s = s"
| "exec (x # xs) s = exec xs (step x s)"

text \<open>
  The invariant of such a program: the slots that an arena still holds have not been
  handed out and hold the zero node, two arenas never hold slots of the same block, and
  the addresses handed out are distinct.
\<close>

definition slot_free :: "state \<Rightarrow> addr \<Rightarrow> bool" where
  "slot_free s p \<longleftrightarrow>
     p \<notin> snd ` set (handed s) \<and> fst p < length (heap s)
     \<and> snd p < length (heap s ! fst p) \<and> load (heap s) p = zeroNode"

definition arena_inv :: "state \<Rightarrow> bool" where
  "arena_inv s \<longleftrightarrow>
     (\<forall>k i. off (arenas s k) \<le> i \<and> i < off (arenas s k) + len (arenas s k)
        \<longrightarrow> slot_free s (blk (arenas s k), i))
     \<and> (\<forall>k k'. k \<noteq> k' \<and> 0 < len (arenas s k) \<and> 0 < len (arenas s k')
        \<longrightarrow> blk (arenas s k) \<noteq> blk (arenas s k'))
     \<and> (\<forall>x \<in> set (handed s). fst (snd x) < length (heap s))
     \<and> distinct (map snd (handed s))"

section \<open>Unfolding one iteration of the loops\<close>

lemma IndexFunc_append:
  "\<forall>x \<in> set pre. \<not> f x \<Longrightarrow> f c \<Longrightarrow> IndexFunc (pre @ c # xs) f = Some (length pre)"
  by (induction pre) auto

lemma IndexFunc_None: "IndexFunc s f = None \<longleftrightarrow> (\<forall>x \<in> set s. \<not> f x)"
  by (induction s) auto

lemma IndexFunc_Some_split:
  "IndexFunc s f = Some i \<Longrightarrow>
     (\<forall>x \<in> set (take i s). \<not> f x) \<and> i < length s \<and> f (s ! i)"
proof (induction s arbitrary: i)
  case Nil
  then show ?case by simp
next
  case (Cons c cs)
  show ?case
  proof (cases "f c")
    case True
    then show ?thesis using Cons.prems by simp
  next
    case False
    then obtain j where j: "IndexFunc cs f = Some j" "i = Suc j"
      using Cons.prems by auto
    from Cons.IH[OF j(1)] False j(2) show ?thesis by simp
  qed
qed

lemma IndexByte_at_lt: "IndexByte (CHR ''<'' # xs) CHR ''<'' = Some 0"
  by (simp add: IndexByte_def)

lemma parse_no_tag:
  "IndexByte t CHR ''<'' = None \<Longrightarrow>
     parse e root parent t =
       (if \<not> root then (parent, Inl (Error (Unclosed (Data parent))))
        else (textNode e parent t, Inr t))"
  by (subst parse.simps) simp

lemma textNode_Nil: "textNode e parent [] = parent"
  by (simp add: textNode_def)

lemma parse_at_close:
  "parse e root parent (CHR ''<'' # CHR ''/'' # rest) =
     (case parseEndTag e (if root then None else Some parent) (CHR ''<'' # CHR ''/'' # rest) of
        Inl f \<Rightarrow> (parent, Inl f)
      | Inr (ok, rest') \<Rightarrow>
          if ok then (parent, Inr rest')
          else (parent, Inl (Error (Unclosed (Data parent)))))"
  by (subst parse.simps) (simp add: IndexByte_at_lt textNode_Nil)

lemma parse_at_declaration:
  "parse e root parent (CHR ''<'' # CHR ''!'' # rest) =
     (case parse_declaration e (CHR ''<'' # CHR ''!'' # rest) of
        Inl f \<Rightarrow> (parent, Inl f)
      | Inr (node, rest') \<Rightarrow> parse e root (AppendChild parent node) rest')"
  by (subst parse.simps) (simp add: IndexByte_at_lt textNode_Nil)

lemma parse_at_open:
  assumes "c \<noteq> CHR ''/''" and "c \<noteq> CHR ''!''"
  shows "parse e root parent (CHR ''<'' # c # rest) =
     (case parseStartTag e (CHR ''<'' # c # rest) of
        Inl f \<Rightarrow> (parent, Inl f)
      | Inr (node, selfClosing, rest') \<Rightarrow>
          (case (if selfClosing then (node, Inr rest')
                 else parse_body e (categorize (DataAtom node)) node rest') of
             (node', Inl f) \<Rightarrow> (AppendChild parent node', Inl f)
           | (node', Inr rest'') \<Rightarrow> parse e root (AppendChild parent node') rest''))"
  using assms
  by (subst parse.simps)
     (simp add: IndexByte_at_lt textNode_Nil parse_body_def Let_def
           cong: sum.case_cong prod.case_cong if_cong)

lemma IndexByte_append:
  "CHR ''<'' \<notin> set pre \<Longrightarrow> IndexByte (pre @ CHR ''<'' # xs) CHR ''<'' = Some (length pre)"
  unfolding IndexByte_def by (rule IndexFunc_append) auto

lemma parse_skip_text:
  assumes "CHR ''<'' \<notin> set pre"
  shows "parse e root parent (pre @ CHR ''<'' # xs)
           = parse e root (textNode e parent pre) (CHR ''<'' # xs)"
proof -
  have l: "parse e root parent (pre @ CHR ''<'' # xs) = X"
    if "parse e root (textNode e parent pre) (CHR ''<'' # xs) = X" for X
    using that
    by (subst parse.simps, subst (asm) parse.simps)
       (simp add: IndexByte_append[OF assms] IndexByte_at_lt textNode_Nil)
  show ?thesis by (rule l) simp
qed

lemma parseRaw_loop_no_tag:
  "IndexByte t CHR ''<'' = None \<Longrightarrow>
     parseRaw_loop e parent escapable buf t = (parent, Inl (Error (Unclosed (Data parent))))"
  by (subst parseRaw_loop.simps) simp

lemma parseRaw_loop_skip_text:
  assumes "CHR ''<'' \<notin> set pre"
  shows "parseRaw_loop e parent escapable buf (pre @ CHR ''<'' # xs)
           = parseRaw_loop e parent escapable (buf @ pre) (CHR ''<'' # xs)"
proof -
  have l: "parseRaw_loop e parent escapable buf (pre @ CHR ''<'' # xs) = X"
    if "parseRaw_loop e parent escapable (buf @ pre) (CHR ''<'' # xs) = X" for X
    using that
    by (subst parseRaw_loop.simps, subst (asm) parseRaw_loop.simps)
       (simp add: IndexByte_append[OF assms] IndexByte_at_lt)
  show ?thesis by (rule l) simp
qed

lemma parseRaw_loop_at_close:
  "parseRaw_loop e parent escapable buf (CHR ''<'' # CHR ''/'' # rest) =
     (case parseEndTag e (Some parent) (CHR ''<'' # CHR ''/'' # rest) of
        Inl f \<Rightarrow> (parent, Inl f)
      | Inr (ok, rest') \<Rightarrow>
          if ok then
            (if escapable then (textNode e parent buf, Inr rest')
             else if length buf > 0 then
               (AppendChild parent (set_Data buf (set_Type TextNode zeroNode)), Inr rest')
             else (parent, Inr rest'))
          else parseRaw_loop e parent escapable (buf @ ''</'') rest)"
  by (subst parseRaw_loop.simps)
     (simp add: IndexByte_at_lt cong: sum.case_cong prod.case_cong if_cong)

lemma parseRaw_loop_at_other:
  "c \<noteq> CHR ''/'' \<Longrightarrow>
     parseRaw_loop e parent escapable buf (CHR ''<'' # c # rest)
       = parseRaw_loop e parent escapable (buf @ [CHR ''<'', c]) rest"
  by (subst parseRaw_loop.simps) (simp add: IndexByte_at_lt)

lemma parseEndTag_mismatch:
  assumes "nextIdent e rest = Inr (elemS, elemA, rest')" and "elemS \<noteq> []"
    and "elemA \<noteq> DataAtom parent \<or> (elemA = Zero \<and> elemS \<noteq> Data parent)"
  shows "parseEndTag e (Some parent) (CHR ''<'' # CHR ''/'' # rest) = Inr (False, rest')"
  using assms by (auto simp: parseEndTag_def)

lemma parseEndTag_match:
  assumes "nextIdent e rest = Inr (elemS, elemA, rest')" and "elemS \<noteq> []"
    and "elemA = DataAtom parent" and "elemA = Zero \<longrightarrow> elemS = Data parent"
  shows "parseEndTag e (Some parent) (CHR ''<'' # CHR ''/'' # rest) =
           (case skipSpace rest' of
              [] \<Rightarrow> Inl Panic
            | c # after \<Rightarrow>
                if c \<noteq> CHR ''>'' then Inl (Error (UnexpectedInClosingOf c elemS))
                else Inr (True, after))"
  using assms by (auto simp: parseEndTag_def)

lemma parseEndTag_root:
  assumes "nextIdent e rest = Inr (elemS, elemA, rest')" and "elemS \<noteq> []"
  shows "parseEndTag e None (CHR ''<'' # CHR ''/'' # rest) = Inr (False, rest')"
  using assms by (auto simp: parseEndTag_def)

section \<open>What the builder does to its parent\<close>

lemma Data_textNode [simp]: "Data (textNode e parent t) = Data parent"
  by (cases parent) (simp add: textNode_def)

lemma DataAtom_textNode [simp]: "DataAtom (textNode e parent t) = DataAtom parent"
  by (cases parent) (simp add: textNode_def)

lemma Data_AppendChild [simp]: "Data (AppendChild parent c) = Data parent"
  by (cases parent) simp

lemma parse_body_no_tag:
  assumes "IndexByte t CHR ''<'' = None" and "cat \<noteq> catVoid"
  shows "parse_body e cat node t = (node, Inl (Error (Unclosed (Data node))))"
  using assms
  by (cases cat) (simp_all add: parse_body_def parseRaw_def parseRaw_loop_no_tag parse_no_tag)

lemma append_children_Nil [simp]: "append_children p [] = p"
  by (cases p) simp

lemma append_children_append [simp]:
  "append_children (append_children p xs) ys = append_children p (xs @ ys)"
  by (cases p) simp

lemma AppendChild_append_children: "AppendChild p c = append_children p [c]"
  by (cases p) simp

lemma textNode_append_children:
  "textNode e p t =
     append_children p (if t = [] then [] else [Node TextNode (UnescapeString e t) Zero [] []])"
  by (cases p) (simp add: textNode_def zeroNode_def)

lemma no_empty_text_append_children:
  "no_empty_text (append_children p kids) \<longleftrightarrow>
     no_empty_text p \<and> (\<forall>k \<in> set kids. no_empty_text k)"
  by (cases p) auto

lemma parseStartTag_attrs_shape:
  "parseStartTag_attrs e node t = Inr (node', t') \<Longrightarrow>
     Type node' = Type node \<and> Data node' = Data node \<and> DataAtom node' = DataAtom node
     \<and> Children node' = Children node"
proof (induction e node t rule: parseStartTag_attrs.induct)
  case (1 e node t)
  show ?case
  proof (cases "\<exists>c cs. t = c # cs \<and> c \<noteq> CHR ''/'' \<and> c \<noteq> CHR ''>''")
    case False
    then show ?thesis
      using "1.prems" by (subst (asm) parseStartTag_attrs.simps) (auto split: list.splits)
  next
    case True
    then obtain c cs where t: "t = c # cs" "c \<noteq> CHR ''/'' \<and> c \<noteq> CHR ''>''" by blast
    from "1.prems" t obtain name a text1 c2 text2 val text3 where
      st: "nextIdent e t = Inr (name, a, text1)" "name \<noteq> []"
          "skipSpace text1 = c2 # text2"
          "(if c2 = CHR ''='' then nextValue (skipSpace text2) else Inr ([], c2 # text2))
             = Inr (val, text3)"
      and rec: "parseStartTag_attrs e (append_Attr \<lparr>Key = name, Val = val\<rparr> node)
                  (skipSpace (skipSpace text3)) = Inr (node', t')"
      by (subst (asm) parseStartTag_attrs.simps)
         (auto split: list.splits sum.splits prod.splits if_splits)
    show ?thesis
      using "1.IH"[OF t(1) t(2) st(1) refl refl st(2) st(3) st(4) refl rec]
      by (cases node) simp
  qed
qed

lemma parseStartTag_node:
  assumes "parseStartTag e t = Inr (node, sc, rest)"
  shows "Type node = ElementNode \<and> Children node = []"
proof -
  from assms obtain elemS elemA r1 t1 where
    at: "parseStartTag_attrs e
           (set_DataAtom elemA (set_Data elemS (set_Type ElementNode zeroNode)))
           (skipSpace r1) = Inr (node, t1)"
    unfolding parseStartTag_def
    by (auto split: sum.splits prod.splits if_splits list.splits)
  from parseStartTag_attrs_shape[OF at] show ?thesis by (simp add: zeroNode_def)
qed

lemma parse_declaration_node:
  assumes "parse_declaration e t = Inr (node, rest)"
  shows "\<exists>d. node = Node CommentNode d Zero [] [] \<or> node = Node DoctypeNode d Zero [] []"
  using assms unfolding parse_declaration_def Let_def zeroNode_def
  by (auto split: if_splits option.splits sum.splits prod.splits)

lemma parseRaw_loop_appends:
  "\<exists>kids. fst (parseRaw_loop e parent escapable buf t) = append_children parent kids
     \<and> ((\<forall>s. s \<noteq> [] \<longrightarrow> UnescapeString e s \<noteq> []) \<longrightarrow> (\<forall>k \<in> set kids. no_empty_text k))"
proof (induction e parent escapable buf t rule: parseRaw_loop.induct)
  case (1 e parent escapable buf t)
  let ?P = "\<lambda>p. \<exists>kids. p = append_children parent kids
     \<and> ((\<forall>s. s \<noteq> [] \<longrightarrow> UnescapeString e s \<noteq> []) \<longrightarrow> (\<forall>k \<in> set kids. no_empty_text k))"
  have P0: "?P parent" by (rule exI[of _ "[]"]) simp
  show ?case
  proof (cases "IndexByte t CHR ''<''")
    case None
    then show ?thesis using P0 by (simp add: parseRaw_loop_no_tag)
  next
    case (Some idx)
    let ?b1 = "buf @ take idx t"
    let ?t1 = "drop idx t"
    note unf = parseRaw_loop.simps[of e parent escapable buf t, unfolded Some option.case Let_def]
    show ?thesis
    proof (cases "length ?t1 < 2")
      case True
      then show ?thesis using P0 unf by simp
    next
      case ge: False
      have cont: "?P (fst (parseRaw_loop e parent escapable (?b1 @ take 2 ?t1) (drop 2 ?t1)))"
        if "?t1 ! 1 = CHR ''/'' \<Longrightarrow> \<exists>rest. parseEndTag e (Some parent) ?t1 = Inr (False, rest)"
      proof (cases "?t1 ! 1 = CHR ''/''")
        case True
        from that[OF True] obtain rest where
          pe: "parseEndTag e (Some parent) ?t1 = Inr (False, rest)" by blast
        show ?thesis
          using "1.IH"(1)[OF Some refl refl ge True pe refl] by simp
      next
        case False
        show ?thesis using "1.IH"(2)[OF Some refl refl ge False] .
      qed
      show ?thesis
      proof (cases "?t1 ! 1 = CHR ''/''")
        case False
        then show ?thesis using cont unf ge by simp
      next
        case True
        show ?thesis
        proof (cases "parseEndTag e (Some parent) ?t1")
          case (Inl f)
          then show ?thesis using P0 unf ge True by simp
        next
          case (Inr r)
          obtain ok rest where r: "r = (ok, rest)" by (cases r)
          show ?thesis
          proof (cases ok)
            case False
            then show ?thesis using cont unf ge True Inr r by simp
          next
            case ok: True
            have t: "?P (textNode e parent ?b1)"
              by (rule exI[of _ "if ?b1 = [] then []
                     else [Node TextNode (UnescapeString e ?b1) Zero [] []]"])
                 (simp add: textNode_append_children)
            have a: "?P (AppendChild parent (set_Data ?b1 (set_Type TextNode zeroNode)))"
              if "0 < length ?b1"
              by (rule exI[of _ "[Node TextNode ?b1 Zero [] []]"])
                 (use that in \<open>simp add: AppendChild_append_children zeroNode_def\<close>)
            have res: "fst (parseRaw_loop e parent escapable buf t) =
                 (if escapable then textNode e parent ?b1
                  else if 0 < length ?b1
                  then AppendChild parent (set_Data ?b1 (set_Type TextNode zeroNode))
                  else parent)"
              unfolding unf using ge True Inr r ok by simp
            show ?thesis
            proof (cases escapable)
              case True
              then show ?thesis unfolding res using t by simp
            next
              case False
              then show ?thesis unfolding res using a P0 by (cases "0 < length ?b1") simp_all
            qed
          qed
        qed
      qed
    qed
  qed
qed

lemma no_empty_text_leaf:
  "Children n = [] \<Longrightarrow> Type n \<noteq> TextNode \<Longrightarrow> no_empty_text n"
  by (cases n) simp

lemma parse_appends:
  "\<exists>kids. fst (parse e root parent t) = append_children parent kids
     \<and> ((\<forall>s. s \<noteq> [] \<longrightarrow> UnescapeString e s \<noteq> []) \<longrightarrow> (\<forall>k \<in> set kids. no_empty_text k))"
proof (induction e root parent t rule: parse.induct)
  case (1 e root parent t)
  let ?D = "\<forall>s. s \<noteq> [] \<longrightarrow> UnescapeString e s \<noteq> []"
  let ?P = "\<lambda>q p. \<exists>kids. p = append_children q kids \<and> (?D \<longrightarrow> (\<forall>k \<in> set kids. no_empty_text k))"
  have P0: "?P q q" for q by (rule exI[of _ "[]"]) simp
  have Ptext: "?P q (textNode e q s)" for q s
    by (rule exI[of _ "if s = [] then [] else [Node TextNode (UnescapeString e s) Zero [] []]"])
       (simp add: textNode_append_children)
  have Ptrans: "?P q p'" if "?P q p" "?P p p'" for q p p'
  proof -
    from that obtain k1 k2 where
      "p = append_children q k1" "?D \<longrightarrow> (\<forall>k \<in> set k1. no_empty_text k)"
      "p' = append_children p k2" "?D \<longrightarrow> (\<forall>k \<in> set k2. no_empty_text k)"
      by blast
    then show ?thesis by (intro exI[of _ "k1 @ k2"]) auto
  qed
  have Pchild: "?P q (AppendChild q c)" if "?D \<longrightarrow> no_empty_text c" for q c
    by (rule exI[of _ "[c]"]) (use that in \<open>simp add: AppendChild_append_children\<close>)
  show ?case
  proof (cases "IndexByte t CHR ''<''")
    case None
    then show ?thesis using P0[of parent] Ptext[of parent t] by (simp add: parse_no_tag)
  next
    case (Some idx)
    let ?p1 = "textNode e parent (take idx t)"
    let ?t1 = "drop idx t"
    note unf = parse.simps[of e root parent t, unfolded Some option.case Let_def]
    have P1: "?P parent ?p1" by (rule Ptext)
    show ?thesis
    proof (cases "length ?t1 < 2")
      case True
      then show ?thesis using P1 unf by simp
    next
      case ge: False
      show ?thesis
      proof (cases "?t1 ! 1 = CHR ''/''")
        case True
        have "fst (parse e root parent t) = ?p1"
          unfolding unf using ge True by (simp split: sum.splits prod.splits)
        then show ?thesis using P1 by simp
      next
        case c1: False
        show ?thesis
        proof (cases "?t1 ! 1 = CHR ''!''")
          case True
          show ?thesis
          proof (cases "parse_declaration e ?t1")
            case (Inl f)
            then show ?thesis using P1 unf ge c1 True by simp
          next
            case (Inr b)
            obtain node r where b: "b = (node, r)" by (cases b)
            have eq: "parse e root parent t = parse e root (AppendChild ?p1 node) r"
              unfolding unf using ge c1 True Inr b by simp
            have "no_empty_text node"
              using parse_declaration_node[OF Inr[unfolded b]] by auto
            then have "?P ?p1 (AppendChild ?p1 node)" by (intro Pchild) simp
            moreover have "?P (AppendChild ?p1 node) (fst (parse e root (AppendChild ?p1 node) r))"
              using "1.IH"(1)[OF Some refl refl ge c1 True Inr b[symmetric]] .
            ultimately have "?P ?p1 (fst (parse e root (AppendChild ?p1 node) r))"
              by (rule Ptrans)
            with P1 show ?thesis unfolding eq by (rule Ptrans)
          qed
        next
          case c2: False
          show ?thesis
          proof (cases "parseStartTag e ?t1")
            case (Inl f)
            then show ?thesis using P1 unf ge c1 c2 by simp
          next
            case (Inr b)
            obtain node sc r where b: "b = (node, sc, r)" by (cases b)
            note ps = Inr[unfolded b]
            let ?c = "categorize (DataAtom node)"
            let ?body = "(if sc then (node, Inr r)
               else if ?c = catVoid then (node, Inr r)
                    else if ?c = catRaw then parseRaw e node False r
                    else if ?c = catEscapableRaw then parseRaw e node True r
                    else if ?c = catNormal \<or> ?c = catTemplate \<or> ?c = catForeign
                    then parse e False node r
                    else (node, Inl Panic))"
            obtain node' res where body: "?body = (node', res)" by (cases ?body)
            have bodyL: "(node', res) = (if sc then (node, Inr r)
               else let cat = categorize (DataAtom node)
                 in if cat = catVoid then (node, Inr r)
                    else if cat = catRaw then parseRaw e node False r
                    else if cat = catEscapableRaw then parseRaw e node True r
                    else if cat = catNormal \<or> cat = catTemplate \<or> cat = catForeign
                    then parse e False node r
                    else (node, Inl Panic))"
              unfolding Let_def using body by (rule sym)
            have leaf: "no_empty_text node"
              using parseStartTag_node[OF ps] by (intro no_empty_text_leaf) simp_all
            have Pbody: "?P node node'"
            proof (cases "sc \<or> ?c = catVoid")
              case True
              then have "node' = node" using body by (auto split: if_splits)
              then show ?thesis using P0[of node] by simp
            next
              case nv: False
              show ?thesis
              proof (cases "?c = catRaw \<or> ?c = catEscapableRaw")
                case True
                then obtain esc where "parseRaw e node esc r = (node', res)"
                  using body nv by (auto split: if_splits)
                then have "node' = fst (parseRaw_loop e node esc [] r)"
                  unfolding parseRaw_def by simp
                then show ?thesis
                  using parseRaw_loop_appends[of e node esc "[]" r] by simp
              next
                case nr: False
                have cat: "?c = catNormal \<or> ?c = catTemplate \<or> ?c = catForeign"
                  using nv nr by (cases ?c) auto
                have "parse e False node r = (node', res)"
                  using body nv nr cat by (auto split: if_splits)
                then have inner: "node' = fst (parse e False node r)" by simp
                show ?thesis
                  unfolding inner
                  using "1.IH"(2)[OF Some refl refl ge c1 c2 Inr b[symmetric] refl _ refl _ _ _ cat]
                    nv nr by simp
              qed
            qed
            have good: "?D \<longrightarrow> no_empty_text node'"
            proof -
              from Pbody obtain kids where "node' = append_children node kids"
                "?D \<longrightarrow> (\<forall>k \<in> set kids. no_empty_text k)" by blast
              then show ?thesis using leaf by (simp add: no_empty_text_append_children)
            qed
            have Pn: "?P parent (AppendChild ?p1 node')"
              using Ptrans[OF P1 Pchild[OF good]] .
            show ?thesis
            proof (cases res)
              case (Inl f)
              have "fst (parse e root parent t) = AppendChild ?p1 node'"
                unfolding unf using ge c1 c2 ps body Inl by (simp add: Let_def)
              then show ?thesis using Pn by simp
            next
              case (Inr r')
              have eq: "parse e root parent t = parse e root (AppendChild ?p1 node') r'"
                unfolding unf using ge c1 c2 ps body Inr by (simp add: Let_def)
              have "?P (AppendChild ?p1 node') (fst (parse e root (AppendChild ?p1 node') r'))"
                using "1.IH"(3)[OF Some refl refl ge c1 c2 \<open>parseStartTag e ?t1 = Inr b\<close>
                    b[symmetric] refl bodyL Inr] .
              with Pn show ?thesis unfolding eq by (rule Ptrans)
            qed
          qed
        qed
      qed
    qed
  qed
qed

lemma Children_append_children [simp]:
  "Children (append_children p kids) = Children p @ kids"
  by (cases p) simp

lemma Children_AppendChild [simp]: "Children (AppendChild p c) = Children p @ [c]"
  by (cases p) simp

lemma fst_Parse: "fst (Parse e parent t) = fst (parse e True parent t)"
  by (simp add: Parse_def split: prod.splits sum.splits)

lemma example_decode_nonempty: "s \<noteq> [] \<Longrightarrow> example_decode s \<noteq> []"
  by (cases s) auto

section \<open>Raw text and declarations\<close>

lemma nextIdent_suffix:
  "nextIdent e t = Inr (s, a, rest) \<Longrightarrow> \<exists>pre. t = pre @ rest"
  unfolding nextIdent_def Let_def
  by (auto split: option.splits if_splits intro: append_take_drop_id[symmetric])

lemma skipSpace_suffix: "\<exists>pre. t = pre @ skipSpace t"
  unfolding skipSpace_def by (metis takeWhile_dropWhile_id)

lemma parseEndTag_suffix:
  assumes "parseEndTag e start (CHR ''<'' # CHR ''/'' # t) = Inr (ok, rest)"
  shows "\<exists>ct. CHR ''<'' # CHR ''/'' # t = ct @ rest"
proof -
  from assms obtain elemS elemA r1 where
    ni: "nextIdent e t = Inr (elemS, elemA, r1)"
    and fin: "rest = r1 \<or> (\<exists>c. skipSpace r1 = c # rest)"
    unfolding parseEndTag_def
    by (auto split: sum.splits prod.splits if_splits list.splits)
  obtain p1 where p1: "t = p1 @ r1" using nextIdent_suffix[OF ni] by blast
  obtain p2 where p2: "r1 = p2 @ skipSpace r1" using skipSpace_suffix[of r1] by blast
  from fin show ?thesis
  proof
    assume "rest = r1"
    then show ?thesis using p1 by (intro exI[of _ "CHR ''<'' # CHR ''/'' # p1"]) simp
  next
    assume "\<exists>c. skipSpace r1 = c # rest"
    then obtain c where "skipSpace r1 = c # rest" by blast
    then have "t = (p1 @ p2 @ [c]) @ rest" using p1 p2 by simp
    then show ?thesis by (intro exI[of _ "CHR ''<'' # CHR ''/'' # p1 @ p2 @ [c]"]) simp
  qed
qed

lemma parseRaw_loop_success:
  "parseRaw_loop e parent escapable buf t = (p', Inr rest) \<Longrightarrow>
     \<exists>lit ct. t = lit @ ct @ rest
       \<and> p' = (if escapable then textNode e parent (buf @ lit)
               else if buf @ lit \<noteq> []
               then AppendChild parent (Node TextNode (buf @ lit) Zero [] [])
               else parent)"
proof (induction e parent escapable buf t rule: parseRaw_loop.induct)
  case (1 e parent escapable buf t)
  from "1.prems" obtain idx where idx: "IndexByte t CHR ''<'' = Some idx"
    by (subst (asm) parseRaw_loop.simps) (auto split: option.splits)
  let ?b1 = "buf @ take idx t"
  let ?t1 = "drop idx t"
  note unf = "1.prems"[unfolded parseRaw_loop.simps[of e parent escapable buf t]
      idx option.case Let_def]
  have ge: "\<not> length ?t1 < 2"
    using unf by (auto split: if_splits)
  have split2: "take 2 ?t1 @ drop 2 ?t1 = ?t1" by (rule append_take_drop_id)
  have cont: ?case
    if rec: "parseRaw_loop e parent escapable (?b1 @ take 2 ?t1) (drop 2 ?t1) = (p', Inr rest)"
      and ih: "parseRaw_loop e parent escapable (?b1 @ take 2 ?t1) (drop 2 ?t1) = (p', Inr rest)
        \<Longrightarrow> \<exists>lit ct. drop 2 ?t1 = lit @ ct @ rest
       \<and> p' = (if escapable then textNode e parent ((?b1 @ take 2 ?t1) @ lit)
               else if (?b1 @ take 2 ?t1) @ lit \<noteq> []
               then AppendChild parent (Node TextNode ((?b1 @ take 2 ?t1) @ lit) Zero [] [])
               else parent)"
  proof -
    from ih[OF rec] obtain lit ct where
      d: "drop 2 ?t1 = lit @ ct @ rest"
      and p: "p' = (if escapable then textNode e parent ((?b1 @ take 2 ?t1) @ lit)
               else if (?b1 @ take 2 ?t1) @ lit \<noteq> []
               then AppendChild parent (Node TextNode ((?b1 @ take 2 ?t1) @ lit) Zero [] [])
               else parent)"
      by blast
    have "t = take idx t @ ?t1" by simp
    also have "?t1 = take 2 ?t1 @ lit @ ct @ rest" using split2 d by metis
    finally have "t = (take idx t @ take 2 ?t1 @ lit) @ ct @ rest" by simp
    moreover have "(?b1 @ take 2 ?t1) @ lit = buf @ (take idx t @ take 2 ?t1 @ lit)" by simp
    ultimately show ?thesis using p by metis
  qed
  show ?case
  proof (cases "?t1 ! 1 = CHR ''/''")
    case False
    have rec: "parseRaw_loop e parent escapable (?b1 @ take 2 ?t1) (drop 2 ?t1) = (p', Inr rest)"
      using unf ge False by simp
    show ?thesis
      by (rule cont[OF rec]) (rule "1.IH"(2)[OF idx refl refl ge False])
  next
    case True
    show ?thesis
    proof (cases "parseEndTag e (Some parent) ?t1")
      case (Inl f)
      then show ?thesis using unf ge True by simp
    next
      case (Inr r)
      obtain ok r1 where r: "r = (ok, r1)" by (cases r)
      show ?thesis
      proof (cases ok)
        case False
        have rec: "parseRaw_loop e parent escapable (?b1 @ take 2 ?t1) (drop 2 ?t1)
                     = (p', Inr rest)"
          using unf ge True Inr r False by simp
        show ?thesis
          by (rule cont[OF rec]) (rule "1.IH"(1)[OF idx refl refl ge True Inr r[symmetric] False])
      next
        case ok: True
        have res: "p' = (if escapable then textNode e parent ?b1
                  else if 0 < length ?b1
                  then AppendChild parent (set_Data ?b1 (set_Type TextNode zeroNode))
                  else parent)" and rest: "rest = r1"
          using unf ge True Inr r ok by (auto split: if_splits)
        obtain c0 c1 tl where t1: "?t1 = c0 # c1 # tl"
          using ge by (cases ?t1; cases "tl ?t1") auto
        have "c0 = CHR ''<''"
        proof -
          have "idx < length t" "t ! idx = CHR ''<''"
            using IndexFunc_Some_split[OF idx[unfolded IndexByte_def]] by simp_all
          moreover have "hd (drop idx t) = c0" using t1 by simp
          ultimately show ?thesis by (simp add: hd_drop_conv_nth)
        qed
        moreover have "c1 = CHR ''/''" using True t1 by simp
        ultimately have "parseEndTag e (Some parent) (CHR ''<'' # CHR ''/'' # tl) = Inr (ok, r1)"
          using Inr r t1 by simp
        from parseEndTag_suffix[OF this] \<open>c0 = CHR ''<''\<close> \<open>c1 = CHR ''/''\<close> t1
        obtain ct where ct: "?t1 = ct @ r1" by auto
        have "t = take idx t @ ct @ rest" using ct rest by (metis append_take_drop_id)
        moreover have "p' = (if escapable then textNode e parent (buf @ take idx t)
               else if buf @ take idx t \<noteq> []
               then AppendChild parent (Node TextNode (buf @ take idx t) Zero [] [])
               else parent)"
          using res by (simp add: zeroNode_def)
        ultimately show ?thesis by blast
      qed
    qed
  qed
qed

lemma parse_declaration_payload:
  assumes "parse_declaration e t = Inr (node, rest)"
  shows "\<exists>i j. Data node = take j (drop i t)"
proof -
  let ?t1 = "drop 2 t"
  show ?thesis
  proof (cases "HasPrefix ?t1 ''--''")
    case True
    then obtain idx where "Data node = take idx (drop 2 ?t1)"
      using assms unfolding parse_declaration_def Let_def zeroNode_def
      by (auto split: if_splits option.splits)
    then have "Data node = take idx (drop 4 t)" by simp
    then show ?thesis by blast
  next
    case False
    then obtain d a r where ni: "nextIdent e ?t1 = Inr (d, a, r)"
      using assms unfolding parse_declaration_def Let_def
      by (auto split: sum.splits if_splits)
    show ?thesis
    proof (cases "d = ''doctype''")
      case True
      then obtain idx where dn: "Data node = take idx (skipSpace r)"
        using assms False ni unfolding parse_declaration_def Let_def zeroNode_def
        by (auto split: if_splits option.splits)
      obtain p1 where p1: "?t1 = p1 @ r" using nextIdent_suffix[OF ni] by blast
      obtain p2 where p2: "r = p2 @ skipSpace r" using skipSpace_suffix[of r] by blast
      have "drop (length p1 + length p2) ?t1 = skipSpace r"
        by (subst p1, subst p2) simp
      then have "skipSpace r = drop (length p1 + length p2 + 2) t" by simp
      then show ?thesis using dn by metis
    next
      case nd: False
      then obtain idx where "Data node = take idx ?t1"
        using assms False ni unfolding parse_declaration_def Let_def zeroNode_def
        by (auto split: if_splits option.splits)
      then show ?thesis by blast
    qed
  qed
qed

lemma nextIdent_decoder: "nextIdent (e\<lparr>UnescapeString := d\<rparr>) t = nextIdent e t"
  by (simp add: nextIdent_def Let_def cong: option.case_cong if_cong)

lemma parse_declaration_decoder:
  "parse_declaration (e\<lparr>UnescapeString := d\<rparr>) t = parse_declaration e t"
  unfolding parse_declaration_def nextIdent_decoder by (rule refl)

lemma textNode_eq:
  "textNode e parent t =
     (if t = [] then parent
      else AppendChild parent (Node TextNode (UnescapeString e t) Zero [] []))"
  by (simp add: textNode_def zeroNode_def)

lemma script_example:
  assumes "atom_Lookup e ''script'' = Script" and "atom_String e Script = ''script''"
  shows "Parse e doc (''<script>a<B>'' @ CHR 0x22 # ''c&dquot;</script>'')
           = (Node DocumentNode [] Zero []
                [Node ElementNode ''script'' Script []
                   [Node TextNode (''a<B>'' @ CHR 0x22 # ''c&dquot;'') Zero [] []]],
              None)"
proof -
  have low: "asciiLower ''script'' = ''script''" by code_simp
  have ni: "nextIdent e (''script>'' @ r) = Inr (''script'', Script, CHR ''>'' # r)" for r
    using assms
    by (simp add: nextIdent_def identInvalidF_def whitespaceF_def low Let_def)
  have st: "parseStartTag e (''<script>'' @ r)
              = Inr (Node ElementNode ''script'' Script [] [], False, r)" for r
    using ni[of r]
    by (simp add: parseStartTag_def skipSpace_def whitespaceF_def zeroNode_def
          parseStartTag_attrs.simps)
  have et: "parseEndTag e (Some (Node ElementNode ''script'' Script [] [])) ''</script>''
              = Inr (True, [])"
    using ni[of "[]"] by (simp add: parseEndTag_def skipSpace_def whitespaceF_def)
  have raw: "parseRaw e (Node ElementNode ''script'' Script [] []) False
               (''a<B>'' @ CHR 0x22 # ''c&dquot;</script>'')
             = (Node ElementNode ''script'' Script []
                   [Node TextNode (''a<B>'' @ CHR 0x22 # ''c&dquot;'') Zero [] []], Inr [])"
    using parseRaw_loop_skip_text[of "''a''" e _ False "[]" "''B>'' @ CHR 0x22 # ''c&dquot;</script>''"]
      parseRaw_loop_skip_text[of "''>'' @ CHR 0x22 # ''c&dquot;''" e _ False "''a<B''" "''/script>''"]
    by (simp add: parseRaw_def parseRaw_loop_at_other parseRaw_loop_at_close et zeroNode_def)
  show ?thesis
    using st[of "''a<B>'' @ CHR 0x22 # ''c&dquot;</script>''" ] raw
    by (simp add: Parse_def parse_at_open parse_body_def parse_no_tag IndexByte_def
          textNode_Nil doc_def)
qed

lemma Index_first_occurrence:
  "\<not> (\<exists>j < length body. HasPrefix (drop j (body @ sep @ rest)) sep) \<Longrightarrow>
     Index (body @ sep @ rest) sep = Some (length body)"
proof (induction body)
  case Nil
  have hp: "HasPrefix (sep @ rest) sep" by (simp add: HasPrefix_def)
  show ?case
  proof (cases "sep @ rest")
    case Nil
    then show ?thesis by simp
  next
    case (Cons a list)
    then have "HasPrefix (a # list) sep" using hp by simp
    then show ?thesis using Cons by simp
  qed
next
  case (Cons c cs)
  have nohead: "\<not> HasPrefix (c # cs @ sep @ rest) sep"
    using Cons.prems by (auto dest: spec[of _ 0])
  have "\<not> (\<exists>j < length cs. HasPrefix (drop j (cs @ sep @ rest)) sep)"
  proof
    assume "\<exists>j < length cs. HasPrefix (drop j (cs @ sep @ rest)) sep"
    then obtain j where "j < length cs" "HasPrefix (drop j (cs @ sep @ rest)) sep" by blast
    then have "Suc j < length (c # cs) \<and> HasPrefix (drop (Suc j) ((c # cs) @ sep @ rest)) sep"
      by simp
    then show False using Cons.prems by blast
  qed
  from Cons.IH[OF this] nohead show ?case by simp
qed

lemma IndexByte_first:
  "c \<notin> set payload \<Longrightarrow> IndexByte (payload @ c # rest) c = Some (length payload)"
  unfolding IndexByte_def by (rule IndexFunc_append) auto

lemma parse_declaration_comment:
  assumes "\<not> (\<exists>j < length body. HasPrefix (drop j (body @ ''-->'' @ rest)) ''-->'')"
  shows "parse_declaration e (''<!--'' @ body @ ''-->'' @ rest)
           = Inr (Node CommentNode body Zero [] [], rest)"
  using Index_first_occurrence[OF assms]
  by (simp add: parse_declaration_def HasPrefix_def zeroNode_def)

lemma parse_declaration_doctype:
  assumes "\<not> HasPrefix x ''--''" and "nextIdent e x = Inr (''doctype'', a, r)"
    and "skipSpace r = payload @ CHR ''>'' # rest" and "CHR ''>'' \<notin> set payload"
  shows "parse_declaration e (''<!'' @ x) = Inr (Node DoctypeNode payload Zero [] [], rest)"
proof -
  have "x \<noteq> []" using assms(2) by (auto simp: nextIdent_def)
  then show ?thesis
    using assms(1-3) IndexByte_first[OF assms(4), of rest]
    by (simp add: parse_declaration_def zeroNode_def)
qed

lemma parse_declaration_other:
  assumes "\<not> HasPrefix x ''--''" and "\<forall>a r. nextIdent e x \<noteq> Inr (''doctype'', a, r)"
    and "x = payload @ CHR ''>'' # rest" and "CHR ''>'' \<notin> set payload"
  shows "parse_declaration e (''<!'' @ x) = Inr (Node CommentNode payload Zero [] [], rest)"
proof -
  have "IndexFunc x identInvalidF \<noteq> None"
    unfolding IndexFunc_None assms(3) by (auto simp: identInvalidF_def)
  then have "\<exists>d a r. nextIdent e x = Inr (d, a, r)"
    by (auto simp: nextIdent_def Let_def)
  then obtain d a r where ni: "nextIdent e x = Inr (d, a, r)" by blast
  then have "d \<noteq> ''doctype''" using assms(2) by auto
  then show ?thesis
    using assms(1) ni IndexByte_first[OF assms(4), of rest] assms(3)
    by (simp add: parse_declaration_def zeroNode_def)
qed

lemma cdata_example:
  assumes "atom_Lookup e ''[cdata[hello'' = Zero"
  shows "Parse e doc ''<![CDATA[hello world]]>''
           = (Node DocumentNode [] Zero []
                [Node CommentNode ''[CDATA[hello world]]'' Zero [] []], None)"
proof -
  have low: "asciiLower ''[CDATA[hello'' = ''[cdata[hello''" by code_simp
  have ni: "nextIdent e ''[CDATA[hello world]]>'' = Inr (''[cdata[hello'', Zero, '' world]]>'')"
    using assms
    by (simp add: nextIdent_def identInvalidF_def whitespaceF_def low Let_def)
  have "\<forall>a r. nextIdent e ''[CDATA[hello world]]>'' \<noteq> Inr (''doctype'', a, r)"
    unfolding ni by simp
  then have "parse_declaration e (''<!'' @ ''[CDATA[hello world]]>'')
               = Inr (Node CommentNode ''[CDATA[hello world]]'' Zero [] [], [])"
    by (intro parse_declaration_other) (simp_all add: HasPrefix_def)
  then show ?thesis
    by (simp add: Parse_def parse_at_declaration parse_no_tag IndexByte_def textNode_Nil
          doc_def)
qed

section \<open>The arena invariant\<close>

lemma arena_inv_init: "arena_inv (init_state h0)"
  by (simp add: arena_inv_def init_state_def nil_arena_def)

lemma newNode_exhausted:
  "len a = 0 \<Longrightarrow>
     newNode h a = ((length h, 0), h @ [replicate 64 zeroNode],
                    \<lparr>blk = length h, off = 1, len = 63\<rparr>)"
  by (simp add: newNode_def make_arena_def arenaSize_def)

lemma newNode_available:
  "0 < len a \<Longrightarrow> newNode h a = ((blk a, off a), h, a\<lparr>off := off a + 1, len := len a - 1\<rparr>)"
  by (simp add: newNode_def)

lemma load_store_other: "p \<noteq> q \<Longrightarrow> load (store h p v) q = load h q"
proof (cases "fst p = fst q")
  case False
  then show ?thesis by (simp add: load_def store_def)
next
  case True
  assume "p \<noteq> q"
  then have ne: "snd p \<noteq> snd q" using True by (simp add: prod_eq_iff)
  show ?thesis
  proof (cases "fst p < length h")
    case True
    then show ?thesis using \<open>fst p = fst q\<close> ne by (simp add: load_def store_def)
  next
    case False
    then show ?thesis by (simp add: load_def store_def list_update_beyond)
  qed
qed

lemma newNode_fresh:
  assumes "arena_inv s"
  shows "case newNode (heap s) (arenas s k) of
           (p, h', a') \<Rightarrow>
             p \<notin> snd ` set (handed s) \<and> fst p < length h' \<and> snd p < length (h' ! fst p)
             \<and> load h' p = zeroNode"
proof (cases "len (arenas s k) = 0")
  case True
  have "(length (heap s), 0) \<notin> snd ` set (handed s)"
    using assms by (auto simp: arena_inv_def)
  then show ?thesis
    using True by (simp add: newNode_exhausted load_def nth_append)
next
  case False
  then have "slot_free s (blk (arenas s k), off (arenas s k))"
    using assms by (auto simp: arena_inv_def)
  then show ?thesis
    using False by (simp add: newNode_available slot_free_def)
qed

lemma step_NewNode_inv:
  assumes inv: "arena_inv s"
  shows "arena_inv (step (NewNode k) s)"
proof (cases "len (arenas s k) = 0")
  case True
  let ?h = "heap s"
  let ?n = "length ?h"
  let ?s' = "\<lparr>heap = ?h @ [replicate 64 zeroNode],
              arenas = (arenas s)(k := \<lparr>blk = ?n, off = 1, len = 63\<rparr>),
              handed = handed s @ [(k, (?n, 0))]\<rparr>"
  have st: "step (NewNode k) s = ?s'"
    using True by (simp add: newNode_exhausted)
  have old: "fst (snd x) < ?n" if "x \<in> set (handed s)" for x
    using inv that by (auto simp: arena_inv_def)
  have notin: "(?n, i) \<notin> snd ` set (handed s)" for i
    using old by fastforce
  have free_old: "slot_free ?s' p" if "slot_free s p" for p
    using that by (auto simp: slot_free_def load_def nth_append)
  have free_new: "slot_free ?s' (?n, i)" if "1 \<le> i" "i < 64" for i
    using that notin by (auto simp: slot_free_def load_def nth_append)
  have 1: "slot_free ?s' (blk (arenas ?s' j), i)"
    if "off (arenas ?s' j) \<le> i" "i < off (arenas ?s' j) + len (arenas ?s' j)" for j i
  proof (cases "j = k")
    case True
    then show ?thesis using that free_new[of i] by simp
  next
    case False
    then have "slot_free s (blk (arenas s j), i)"
      using inv that by (auto simp: arena_inv_def)
    then show ?thesis using False free_old by simp
  qed
  have lt: "blk (arenas s j) < ?n" if "0 < len (arenas s j)" for j
  proof -
    have "slot_free s (blk (arenas s j), off (arenas s j))"
      using inv that by (auto simp: arena_inv_def)
    then show ?thesis by (simp add: slot_free_def)
  qed
  have 2: "blk (arenas ?s' j) \<noteq> blk (arenas ?s' j')"
    if ne: "j \<noteq> j'" and "0 < len (arenas ?s' j)" "0 < len (arenas ?s' j')" for j j'
  proof -
    consider "j = k" "j' \<noteq> k" | "j' = k" "j \<noteq> k" | "j \<noteq> k" "j' \<noteq> k"
      using ne by blast
    then show ?thesis
    proof cases
      case 1
      then show ?thesis using lt[of j'] that by simp
    next
      case 2
      then show ?thesis using lt[of j] that by simp
    next
      case 3
      then show ?thesis using inv that by (auto simp: arena_inv_def)
    qed
  qed
  have 3: "\<forall>x \<in> set (handed ?s'). fst (snd x) < length (heap ?s')"
    using old by (auto intro: less_SucI)
  have 4: "distinct (map snd (handed ?s'))"
    using inv notin[of 0] by (simp add: arena_inv_def)
  show ?thesis
    unfolding st arena_inv_def using 1 2 3 4 by blast
next
  case False
  let ?a = "arenas s k"
  let ?p = "(blk ?a, off ?a)"
  let ?s' = "\<lparr>heap = heap s,
              arenas = (arenas s)(k := ?a\<lparr>off := off ?a + 1, len := len ?a - 1\<rparr>),
              handed = handed s @ [(k, ?p)]\<rparr>"
  have st: "step (NewNode k) s = ?s'"
    using False by (simp add: newNode_available)
  have pfree: "slot_free s ?p"
    using inv False by (auto simp: arena_inv_def)
  have free_keep: "slot_free ?s' q" if "slot_free s q" "q \<noteq> ?p" for q
    using that by (auto simp: slot_free_def)
  have 1: "slot_free ?s' (blk (arenas ?s' j), i)"
    if "off (arenas ?s' j) \<le> i" "i < off (arenas ?s' j) + len (arenas ?s' j)" for j i
  proof (cases "j = k")
    case True
    then have "off ?a \<le> i" "i < off ?a + len ?a" "i \<noteq> off ?a"
      using that by simp_all
    then have "slot_free s (blk ?a, i)"
      using inv by (auto simp: arena_inv_def)
    then show ?thesis using True \<open>i \<noteq> off ?a\<close> free_keep by simp
  next
    case nk: False
    then have r: "off (arenas s j) \<le> i" "i < off (arenas s j) + len (arenas s j)"
      using that by simp_all
    then have f: "slot_free s (blk (arenas s j), i)"
      using inv by (auto simp: arena_inv_def)
    have "0 < len (arenas s j)" using r by simp
    then have "blk (arenas s j) \<noteq> blk ?a"
      using inv nk False by (auto simp: arena_inv_def)
    then show ?thesis using nk f free_keep by simp
  qed
  have 2: "blk (arenas ?s' j) \<noteq> blk (arenas ?s' j')"
    if "j \<noteq> j'" "0 < len (arenas ?s' j)" "0 < len (arenas ?s' j')" for j j'
  proof -
    have "0 < len (arenas s j)" "0 < len (arenas s j')"
      using that by (auto split: if_splits)
    then have "blk (arenas s j) \<noteq> blk (arenas s j')"
      using inv that(1) by (auto simp: arena_inv_def)
    then show ?thesis using that(1) by auto
  qed
  have 3: "\<forall>x \<in> set (handed ?s'). fst (snd x) < length (heap ?s')"
    using inv pfree by (auto simp: arena_inv_def slot_free_def)
  have 4: "distinct (map snd (handed ?s'))"
    using inv pfree by (simp add: arena_inv_def slot_free_def)
  show ?thesis
    unfolding st arena_inv_def using 1 2 3 4 by blast
qed

lemma step_Write_inv:
  assumes inv: "arena_inv s"
  shows "arena_inv (step (Write p v) s)"
proof (cases "p \<in> snd ` set (handed s)")
  case False
  then show ?thesis using inv by simp
next
  case True
  let ?s' = "s\<lparr>heap := store (heap s) p v\<rparr>"
  have st: "step (Write p v) s = ?s'" using True by simp
  have len: "length (store h p v) = length h" for h
    by (simp add: store_def)
  have len2: "length (store h p v ! b) = length (h ! b)" for h b
    by (cases "b = fst p"; cases "fst p < length h") (simp_all add: store_def list_update_beyond)
  have free: "slot_free ?s' q" if "slot_free s q" for q
  proof -
    have "p \<noteq> q" using that True by (auto simp: slot_free_def)
    then show ?thesis
      using that by (simp add: slot_free_def len len2 load_store_other)
  qed
  show ?thesis
    unfolding st using inv free by (simp add: arena_inv_def len)
qed

lemma exec_inv: "arena_inv s \<Longrightarrow> arena_inv (exec ops s)"
proof (induction ops arbitrary: s)
  case Nil
  then show ?case by simp
next
  case (Cons x xs)
  have "arena_inv (step x s)"
    using Cons.prems by (cases x) (simp_all only: step_NewNode_inv step_Write_inv)
  then show ?case using Cons.IH by simp
qed

section \<open>Iterations of the loops\<close>

lemma parse_iteration_step:
  assumes "parse_iteration e (parent, t) = Some (parent', t')"
  shows "parse e root parent t = parse e root parent' t' \<and> Data parent' = Data parent"
proof -
  from assms obtain idx where idx: "IndexByte t CHR ''<'' = Some idx"
    by (auto simp: parse_iteration_def split: option.splits)
  let ?p1 = "textNode e parent (take idx t)"
  let ?t1 = "drop idx t"
  note it = assms[unfolded parse_iteration_def prod.case idx option.case Let_def]
  note unf = parse.simps[of e root parent t, unfolded idx option.case Let_def]
  have ge: "\<not> length ?t1 < 2" and c1: "?t1 ! 1 \<noteq> CHR ''/''"
    using it by (auto split: if_splits)
  show ?thesis
  proof (cases "?t1 ! 1 = CHR ''!''")
    case True
    then obtain node where pd: "parse_declaration e ?t1 = Inr (node, t')"
      and p': "parent' = AppendChild ?p1 node"
      using it ge c1 by (auto split: sum.splits prod.splits)
    show ?thesis
      unfolding unf using ge c1 True pd p' by simp
  next
    case c2: False
    then obtain node sc r node' where ps: "parseStartTag e ?t1 = Inr (node, sc, r)"
      and body: "(if sc then (node, Inr r)
                  else parse_body e (categorize (DataAtom node)) node r) = (node', Inr t')"
      and p': "parent' = AppendChild ?p1 node'"
      using it ge c1 by (auto split: sum.splits prod.splits)
    have "parse e root parent t = parse e root (AppendChild ?p1 node') t'"
      unfolding unf using ge c1 c2 ps body[unfolded parse_body_def]
      by (simp add: Let_def)
    then show ?thesis using p' by simp
  qed
qed

lemma parse_iterations_run:
  "iterations (parse_iteration e) n (parent, t) = Some (parent', t') \<Longrightarrow>
     parse e root parent t = parse e root parent' t' \<and> Data parent' = Data parent"
proof (induction n arbitrary: parent t)
  case 0
  then show ?case by simp
next
  case (Suc n)
  then obtain p1 t1 where s: "parse_iteration e (parent, t) = Some (p1, t1)"
    and r: "iterations (parse_iteration e) n (p1, t1) = Some (parent', t')"
    by (auto split: option.splits)
  from parse_iteration_step[OF s, of root] Suc.IH[OF r] show ?case by simp
qed

lemma parseRaw_iteration_step:
  assumes "parseRaw_iteration e parent (buf, t) = Some (buf', t')"
  shows "parseRaw_loop e parent escapable buf t = parseRaw_loop e parent escapable buf' t'"
proof -
  from assms obtain idx where idx: "IndexByte t CHR ''<'' = Some idx"
    by (auto simp: parseRaw_iteration_def split: option.splits)
  let ?t1 = "drop idx t"
  note it = assms[unfolded parseRaw_iteration_def prod.case idx option.case Let_def]
  note unf = parseRaw_loop.simps[of e parent escapable buf t, unfolded idx option.case Let_def]
  have ge: "\<not> length ?t1 < 2"
    using it by (auto split: if_splits)
  show ?thesis
  proof (cases "?t1 ! 1 = CHR ''/''")
    case False
    then show ?thesis unfolding unf using it ge by simp
  next
    case True
    then obtain rest where "parseEndTag e (Some parent) ?t1 = Inr (False, rest)"
      and "buf' = (buf @ take idx t) @ take 2 ?t1" "t' = drop 2 ?t1"
      using it ge by (auto split: sum.splits prod.splits if_splits)
    then show ?thesis unfolding unf using ge True by simp
  qed
qed

lemma parseRaw_iterations_run:
  "iterations (parseRaw_iteration e parent) n (buf, t) = Some (buf', t') \<Longrightarrow>
     parseRaw_loop e parent escapable buf t = parseRaw_loop e parent escapable buf' t'"
proof (induction n arbitrary: buf t)
  case 0
  then show ?case by simp
next
  case (Suc n)
  then obtain b1 t1 where s: "parseRaw_iteration e parent (buf, t) = Some (b1, t1)"
    and r: "iterations (parseRaw_iteration e parent) n (b1, t1) = Some (buf', t')"
    by (auto split: option.splits)
  from parseRaw_iteration_step[OF s, of escapable] Suc.IH[OF r] show ?case by simp
qed

lemma parse_open_body_fails:
  assumes "iterations (parse_iteration e) n (parent, t) = Some (parent', pre @ CHR ''<'' # c # s)"
    and "CHR ''<'' \<notin> set pre" and "c \<noteq> CHR ''/''" and "c \<noteq> CHR ''!''"
    and "parseStartTag e (CHR ''<'' # c # s) = Inr (node, False, r)"
    and "parse_body e (categorize (DataAtom node)) node r = (node', Inl f)"
  shows "parse e root parent t = (AppendChild (textNode e parent' pre) node', Inl f)"
proof -
  have "parse e root parent t = parse e root parent' (pre @ CHR ''<'' # c # s)"
    using parse_iterations_run[OF assms(1)] by simp
  also have "\<dots> = parse e root (textNode e parent' pre) (CHR ''<'' # c # s)"
    using assms(2) by (rule parse_skip_text)
  also have "\<dots> = (AppendChild (textNode e parent' pre) node', Inl f)"
    using assms(5,6) by (simp add: parse_at_open[OF assms(3,4)])
  finally show ?thesis .
qed

lemma ends_open_Unclosed:
  "ends_open e root parent t name \<Longrightarrow>
     snd (parse e root parent t) = Inl (Error (Unclosed name))"
proof (induction rule: ends_open.induct)
  case (here n parent t parent' t')
  have "parse e False parent t = parse e False parent' t'" "Data parent' = Data parent"
    using parse_iterations_run[OF here(1)] by simp_all
  then show ?case using here(2) by (simp add: parse_no_tag)
next
  case (raw n parent t parent' pre c s node r m buf' r' root)
  have "parseRaw_loop e node esc [] r = (node, Inl (Error (Unclosed (Data node))))" for esc
    using parseRaw_iterations_run[OF raw(7), of esc] raw(8)
    by (simp add: parseRaw_loop_no_tag)
  then have "parse_body e (categorize (DataAtom node)) node r
               = (node, Inl (Error (Unclosed (Data node))))"
    using raw(6) by (auto simp: parse_body_def parseRaw_def)
  from parse_open_body_fails[OF raw(1-5) this] show ?case by simp
next
  case (nested n parent t parent' pre c s node r name root)
  obtain node' where "parse e False node r = (node', Inl (Error (Unclosed name)))"
    using nested.IH by (cases "parse e False node r") auto
  then have "parse_body e (categorize (DataAtom node)) node r
               = (node', Inl (Error (Unclosed name)))"
    using nested(6) by (auto simp: parse_body_def)
  from parse_open_body_fails[OF nested(1-5) this] show ?case by simp
qed

section \<open>The claims\<close>

text \<open>
  C8.  \<open>categorize\<close> is total and is the fixed table: the fourteen void tags, template, the
  two raw tags and the two escapable raw tags have their category, and every other
  identity, the unrecognised one (\<open>Zero\<close>) included, is \<open>catNormal\<close>.  At an opening tag
  \<open>parse\<close> dispatches on the category of the new element by the switch \<open>parse_body\<close>,
  which sends \<open>catNormal\<close>, \<open>catTemplate\<close> and \<open>catForeign\<close> to the same recursive call:
  for an element of one of these categories \<open>parse\<close> calls itself on the element with
  the root flag off, and goes on with the loop of the parent where that call ends.
\<close>

theorem categorize_table:
  "categorize a =
     (if a \<in> {Area, Base, Br, Col, Embed, Hr, Img, Input, Link, Meta, Param, Source,
                Track, Wbr} then catVoid
      else if a = Template then catTemplate
      else if a \<in> {Script, Style} then catRaw
      else if a \<in> {Textarea, Title} then catEscapableRaw
      else catNormal)
   \<and> parse_body e catNormal node rest = parse e False node rest
   \<and> parse_body e catTemplate node rest = parse e False node rest
   \<and> parse_body e catForeign node rest = parse e False node rest
   \<and> (CHR ''<'' \<notin> set pre \<and> c \<noteq> CHR ''/'' \<and> c \<noteq> CHR ''!''
      \<longrightarrow> parse e root parent (pre @ CHR ''<'' # c # s) =
           (case parseStartTag e (CHR ''<'' # c # s) of
              Inl f \<Rightarrow> (textNode e parent pre, Inl f)
            | Inr (elem, selfClosing, r) \<Rightarrow>
                (case (if selfClosing then (elem, Inr r)
                       else parse_body e (categorize (DataAtom elem)) elem r) of
                   (elem', Inl f) \<Rightarrow> (AppendChild (textNode e parent pre) elem', Inl f)
                 | (elem', Inr r') \<Rightarrow>
                     parse e root (AppendChild (textNode e parent pre) elem') r')))
   \<and> (CHR ''<'' \<notin> set pre \<and> c \<noteq> CHR ''/'' \<and> c \<noteq> CHR ''!''
        \<and> parseStartTag e (CHR ''<'' # c # s) = Inr (elem, False, r)
        \<and> (categorize (DataAtom elem) = catNormal \<or> categorize (DataAtom elem) = catTemplate
             \<or> categorize (DataAtom elem) = catForeign)
      \<longrightarrow> parse e root parent (pre @ CHR ''<'' # c # s) =
           (case parse e False elem r of
              (elem', Inl f) \<Rightarrow> (AppendChild (textNode e parent pre) elem', Inl f)
            | (elem', Inr r') \<Rightarrow> parse e root (AppendChild (textNode e parent pre) elem') r'))"
proof -
  have tab: "categorize a =
     (if a \<in> {Area, Base, Br, Col, Embed, Hr, Img, Input, Link, Meta, Param, Source,
                Track, Wbr} then catVoid
      else if a = Template then catTemplate
      else if a \<in> {Script, Style} then catRaw
      else if a \<in> {Textarea, Title} then catEscapableRaw
      else catNormal)"
    by (cases a) simp_all
  have body: "parse_body e catNormal node rest = parse e False node rest"
    "parse_body e catTemplate node rest = parse e False node rest"
    "parse_body e catForeign node rest = parse e False node rest"
    by (simp_all add: parse_body_def)
  have sw: "parse e root parent (pre @ CHR ''<'' # c # s) =
           (case parseStartTag e (CHR ''<'' # c # s) of
              Inl f \<Rightarrow> (textNode e parent pre, Inl f)
            | Inr (elem, selfClosing, r) \<Rightarrow>
                (case (if selfClosing then (elem, Inr r)
                       else parse_body e (categorize (DataAtom elem)) elem r) of
                   (elem', Inl f) \<Rightarrow> (AppendChild (textNode e parent pre) elem', Inl f)
                 | (elem', Inr r') \<Rightarrow>
                     parse e root (AppendChild (textNode e parent pre) elem') r'))"
    if "CHR ''<'' \<notin> set pre" "c \<noteq> CHR ''/''" "c \<noteq> CHR ''!''"
    unfolding parse_skip_text[OF that(1)] by (rule parse_at_open[OF that(2,3)])
  have rec: "parse e root parent (pre @ CHR ''<'' # c # s) =
           (case parse e False elem r of
              (elem', Inl f) \<Rightarrow> (AppendChild (textNode e parent pre) elem', Inl f)
            | (elem', Inr r') \<Rightarrow> parse e root (AppendChild (textNode e parent pre) elem') r')"
    if "CHR ''<'' \<notin> set pre" "c \<noteq> CHR ''/''" "c \<noteq> CHR ''!''"
      "parseStartTag e (CHR ''<'' # c # s) = Inr (elem, False, r)"
      "categorize (DataAtom elem) = catNormal \<or> categorize (DataAtom elem) = catTemplate
         \<or> categorize (DataAtom elem) = catForeign"
  proof -
    have "parse_body e (categorize (DataAtom elem)) elem r = parse e False elem r"
      using that(5) body by (auto simp: parse_body_def)
    then show ?thesis unfolding sw[OF that(1-3)] using that(4) by simp
  qed
  show ?thesis using tab body sw rec by blast
qed

theorem categorize_table_witness:
  "categorize Br = catVoid \<and> categorize Template = catTemplate
   \<and> categorize Style = catRaw \<and> categorize Title = catEscapableRaw
   \<and> categorize Zero = catNormal \<and> categorize (Other 3) = catNormal
   \<and> parse_body example_env catForeign doc ''x'' = parse example_env False doc ''x''
   \<and> parse example_env True doc ''x<template>y</template>z''
       = (case parse example_env False (Node ElementNode ''template'' Template [] [])
                 ''y</template>z'' of
            (elem', Inl f) \<Rightarrow> (AppendChild (textNode example_env doc ''x'') elem', Inl f)
          | (elem', Inr r') \<Rightarrow>
              parse example_env True (AppendChild (textNode example_env doc ''x'') elem') r')
   \<and> parse example_env True doc ''x<template>y</template>z''
       = (Node DocumentNode [] Zero []
            [Node TextNode ''x'' Zero [] [],
             Node ElementNode ''template'' Template [] [Node TextNode ''y'' Zero [] []],
             Node TextNode ''z'' Zero [] []], Inr ''z'')"
proof -
  have p: "CHR ''<'' \<notin> set ''x''" "CHR ''t'' \<noteq> CHR ''/''" "CHR ''t'' \<noteq> CHR ''!''"
    by simp_all
  have st: "parseStartTag example_env (CHR ''<'' # CHR ''t'' # ''emplate>y</template>z'')
              = Inr (Node ElementNode ''template'' Template [] [], False, ''y</template>z'')"
    by code_simp
  have r: "parse example_env True doc ''x<template>y</template>z''
       = (Node DocumentNode [] Zero []
            [Node TextNode ''x'' Zero [] [],
             Node ElementNode ''template'' Template [] [Node TextNode ''y'' Zero [] []],
             Node TextNode ''z'' Zero [] []], Inr ''z'')"
    by code_simp
  show ?thesis
    using categorize_table[of Br example_env doc "''x''"]
      categorize_table[of Template example_env doc "''x''"]
      categorize_table[where e = example_env and pre = "''x''" and c = "CHR ''t''"
        and s = "''emplate>y</template>z''" and root = True and parent = doc
        and elem = "Node ElementNode ''template'' Template [] []" and r = "''y</template>z''"]
      p st r
    by simp
qed

text \<open>
  C1.  On the two-byte input \<open><a\<close> the identifier scan finds no terminating byte and
  slices with the index -1: \<open>Parse\<close> panics instead of returning an error.  The same
  happens for a comment that is not terminated.  No child is attached to the document in
  either case.  Where the input ends right after \<open><\<close> or \<open><!\<close>, the checks of the length
  do return an error.
\<close>

theorem Parse_truncated_panics:
  "Parse e doc ''<a'' = (doc, Some Panic)
   \<and> Parse e doc ''<!-- x'' = (doc, Some Panic)
   \<and> Parse e doc ''<'' = (doc, Some (Error EOFInOpeningTag))
   \<and> Parse e doc ''<!'' = (doc, Some (Error EOFInCommentTag))"
proof -
  have 1: "Parse e doc ''<a'' = (doc, Some Panic)"
    by (simp add: Parse_def parse_at_open parseStartTag_def skipSpace_def nextIdent_def
          identInvalidF_def whitespaceF_def)
  have 2: "Parse e doc ''<!-- x'' = (doc, Some Panic)"
    by (simp add: Parse_def parse_at_declaration parse_declaration_def HasPrefix_def)
  have 3: "Parse e doc ''<'' = (doc, Some (Error EOFInOpeningTag))"
    by (simp add: Parse_def parse.simps[of e True doc "''<''"] IndexByte_at_lt textNode_Nil)
  have 4: "Parse e doc ''<!'' = (doc, Some (Error EOFInCommentTag))"
    by (simp add: Parse_def parse_at_declaration parse_declaration_def)
  show ?thesis using 1 2 3 4 by simp
qed

theorem Parse_truncated_panics_witness:
  "Parse example_env doc ''<a'' = (doc, Some Panic)
   \<and> Parse example_env doc ''<'' = (doc, Some (Error EOFInOpeningTag))"
  using Parse_truncated_panics[of example_env] by simp

text \<open>
  C2.  Raw-text mode, at a \<open></\<close> whose name does not match the element being scanned
  (the scan \<open>nextIdent\<close> returns a non-empty name whose identity differs from the
  element's, or both are unrecognised and the spellings differ): \<open>parseEndTag\<close> reports
  the mismatch without an error, having moved the cursor past the name; \<open>parseRaw\<close> then
  continues from the cursor as it was before the attempt, with \<open><\<close> and the byte after
  it appended to the buffer and exactly these two bytes consumed.
\<close>

theorem parseRaw_mismatch_backtracks:
  assumes "CHR ''<'' \<notin> set pre"
    and "nextIdent e rest = Inr (elemS, elemA, rest')" and "elemS \<noteq> []"
    and "elemA \<noteq> DataAtom parent \<or> (elemA = Zero \<and> elemS \<noteq> Data parent)"
  shows "parseEndTag e (Some parent) (''</'' @ rest) = Inr (False, rest')
       \<and> length rest' < length rest
       \<and> parseRaw_loop e parent escapable buf (pre @ ''</'' @ rest)
           = parseRaw_loop e parent escapable (buf @ pre @ ''</'') rest"
proof -
  have m: "parseEndTag e (Some parent) (CHR ''<'' # CHR ''/'' # rest) = Inr (False, rest')"
    using assms(2-4) by (rule parseEndTag_mismatch)
  have "parseRaw_loop e parent escapable buf (pre @ CHR ''<'' # CHR ''/'' # rest)
          = parseRaw_loop e parent escapable (buf @ pre) (CHR ''<'' # CHR ''/'' # rest)"
    using assms(1) by (rule parseRaw_loop_skip_text)
  also have "\<dots> = parseRaw_loop e parent escapable ((buf @ pre) @ ''</'') rest"
    by (subst parseRaw_loop_at_close) (simp add: m)
  finally have "parseRaw_loop e parent escapable buf (pre @ ''</'' @ rest)
           = parseRaw_loop e parent escapable (buf @ pre @ ''</'') rest"
    by simp
  moreover have "length rest' < length rest"
    using nextIdent_length[OF assms(2)] assms(3) by auto
  ultimately show ?thesis using m by simp
qed

theorem parseRaw_mismatch_backtracks_witness:
  "parseRaw_loop example_env scriptNode False [] ''a</b>x</script>''
     = parseRaw_loop example_env scriptNode False ''a</'' ''b>x</script>''
   \<and> parseRaw_loop example_env scriptNode False [] ''a</b>x</script>''
     = (Node ElementNode ''script'' Script [] [Node TextNode ''a</b>x'' Zero [] []], Inr [])"
proof -
  have h: "nextIdent example_env ''b>x</script>'' = Inr (''b'', Other 2, ''>x</script>'')"
    by code_simp
  have r: "parseRaw_loop example_env scriptNode False ''a</'' ''b>x</script>''
     = (Node ElementNode ''script'' Script [] [Node TextNode ''a</b>x'' Zero [] []], Inr [])"
    by code_simp
  show ?thesis
    using parseRaw_mismatch_backtracks[of "''a''" example_env "''b>x</script>''" "''b''"
        "Other 2" "''>x</script>''" scriptNode False "[]"] h r
    by (simp add: scriptNode_def)
qed

text \<open>
  C3.  When the remaining input holds no further \<open><\<close>: an invocation in tag mode that
  is not the root returns the error "Unclosed element" with the name of its parent, and
  so does raw-text mode; the root invocation succeeds and emits the remaining bytes as
  text.  The same holds when the loop has first run any number of iterations (text,
  declarations and child elements with their bodies in tag mode; bytes moved to the
  buffer, whatever it holds, in raw-text mode) and then finds no further \<open><\<close>.  The
  failure of the body of an element is returned unchanged by the enclosing invocation.
  So for every input that ends inside the body of an element, at any depth and after
  any siblings (\<open>ends_open\<close>), \<open>Parse\<close> returns the error "Unclosed element" with the name
  of the innermost open element.
\<close>

theorem unclosed_element_at_end_of_input:
  assumes "IndexByte t CHR ''<'' = None"
  shows "parse e False parent t = (parent, Inl (Error (Unclosed (Data parent))))
       \<and> parseRaw e parent escapable t = (parent, Inl (Error (Unclosed (Data parent))))
       \<and> parse e True parent t = (textNode e parent t, Inr t)
       \<and> Parse e parent t = (textNode e parent t, None)
       \<and> (c \<noteq> CHR ''/'' \<and> c \<noteq> CHR ''!''
            \<and> parseStartTag e (CHR ''<'' # c # s) = Inr (node, False, t)
            \<and> categorize (DataAtom node) \<noteq> catVoid
          \<longrightarrow> Parse e parent (CHR ''<'' # c # s)
                = (AppendChild parent node, Some (Error (Unclosed (Data node)))))
       \<and> (c \<noteq> CHR ''/'' \<and> c \<noteq> CHR ''!''
            \<and> parseStartTag e (CHR ''<'' # c # s) = Inr (node, False, r)
            \<and> parse_body e (categorize (DataAtom node)) node r = (node', Inl f)
          \<longrightarrow> parse e root parent (CHR ''<'' # c # s) = (AppendChild parent node', Inl f))
       \<and> (iterations (parse_iteration e) n (parent, t0) = Some (parent', t)
          \<longrightarrow> parse e False parent t0 = (parent', Inl (Error (Unclosed (Data parent))))
              \<and> parse e True parent t0 = (textNode e parent' t, Inr t)
              \<and> Parse e parent t0 = (textNode e parent' t, None))
       \<and> (iterations (parseRaw_iteration e parent) n (buf, t0) = Some (buf', t)
          \<longrightarrow> parseRaw_loop e parent escapable buf t0
                = (parent, Inl (Error (Unclosed (Data parent)))))
       \<and> (iterations (parseRaw_iteration e parent) n ([], t0) = Some (buf', t)
          \<longrightarrow> parseRaw e parent escapable t0
                = (parent, Inl (Error (Unclosed (Data parent)))))
       \<and> (ends_open e root parent t1 name
          \<longrightarrow> snd (parse e root parent t1) = Inl (Error (Unclosed name)))
       \<and> (ends_open e True parent t1 name
          \<longrightarrow> snd (Parse e parent t1) = Some (Error (Unclosed name)))"
proof -
  have 1: "parse e False parent t = (parent, Inl (Error (Unclosed (Data parent))))"
    using assms by (simp add: parse_no_tag)
  have 2: "parseRaw e parent escapable t = (parent, Inl (Error (Unclosed (Data parent))))"
    using assms by (simp add: parseRaw_def parseRaw_loop_no_tag)
  have 3: "parse e True parent t = (textNode e parent t, Inr t)"
    using assms by (simp add: parse_no_tag)
  have 4: "Parse e parent t = (textNode e parent t, None)"
    using 3 by (simp add: Parse_def)
  have 5: "Parse e parent (CHR ''<'' # c # s)
             = (AppendChild parent node, Some (Error (Unclosed (Data node))))"
    if "c \<noteq> CHR ''/''" "c \<noteq> CHR ''!''"
      "parseStartTag e (CHR ''<'' # c # s) = Inr (node, False, t)"
      "categorize (DataAtom node) \<noteq> catVoid"
    using that parse_body_no_tag[OF assms that(4), of e node]
    by (simp add: Parse_def parse_at_open)
  have 6: "parse e root parent (CHR ''<'' # c # s) = (AppendChild parent node', Inl f)"
    if "c \<noteq> CHR ''/''" "c \<noteq> CHR ''!''"
      "parseStartTag e (CHR ''<'' # c # s) = Inr (node, False, r)"
      "parse_body e (categorize (DataAtom node)) node r = (node', Inl f)"
    using that by (simp add: parse_at_open)
  have 7: "parse e False parent t0 = (parent', Inl (Error (Unclosed (Data parent))))
              \<and> parse e True parent t0 = (textNode e parent' t, Inr t)
              \<and> Parse e parent t0 = (textNode e parent' t, None)"
    if it: "iterations (parse_iteration e) n (parent, t0) = Some (parent', t)"
  proof -
    have "parse e root parent t0 = parse e root parent' t" for root
      using parse_iterations_run[OF it] by simp
    moreover have "Data parent' = Data parent"
      using parse_iterations_run[OF it] by simp
    ultimately show ?thesis using assms by (simp add: Parse_def parse_no_tag)
  qed
  have 8: "parseRaw_loop e parent escapable b t0
             = (parent, Inl (Error (Unclosed (Data parent))))"
    if "iterations (parseRaw_iteration e parent) n (b, t0) = Some (buf', t)" for b
    using parseRaw_iterations_run[OF that, of escapable] assms
    by (simp add: parseRaw_loop_no_tag)
  have 9: "snd (parse e root parent t1) = Inl (Error (Unclosed name))"
    if "ends_open e root parent t1 name" for root
    using that by (rule ends_open_Unclosed)
  have 10: "snd (Parse e parent t1) = Some (Error (Unclosed name))"
    if "ends_open e True parent t1 name"
    using 9[OF that] by (cases "parse e True parent t1") (simp add: Parse_def)
  show ?thesis
    using 1 2 3 4 5 6 7 8[of buf] 8[of "[]"] 9 10 unfolding parseRaw_def by blast
qed

theorem unclosed_element_at_end_of_input_witness:
  "parse example_env False scriptNode ''foo'' = (scriptNode, Inl (Error (Unclosed ''script'')))
   \<and> parseRaw example_env scriptNode False ''foo''
       = (scriptNode, Inl (Error (Unclosed ''script'')))
   \<and> Parse example_env doc ''foo'' = (Node DocumentNode [] Zero [] [Node TextNode ''foo'' Zero [] []], None)
   \<and> Parse example_env doc ''<div>foo''
       = (Node DocumentNode [] Zero [] [Node ElementNode ''div'' (Other 3) [] []],
          Some (Error (Unclosed ''div'')))
   \<and> parseRaw example_env scriptNode False ''a<b>c''
       = (scriptNode, Inl (Error (Unclosed ''script'')))
   \<and> parse example_env False fooNode ''<a></a>foo''
       = (Node ElementNode ''foo'' Zero [] [Node ElementNode ''a'' (Other 1) [] []],
          Inl (Error (Unclosed ''foo'')))
   \<and> snd (Parse example_env doc ''<div><a></a>foo'') = Some (Error (Unclosed ''div''))
   \<and> snd (Parse example_env doc ''x<p><br><script>a<b>c'') = Some (Error (Unclosed ''script''))"
proof -
  have h: "IndexByte ''foo'' CHR ''<'' = None" by code_simp
  have hc: "IndexByte ''>c'' CHR ''<'' = None" by code_simp
  have s: "parseStartTag example_env ''<div>foo''
             = Inr (Node ElementNode ''div'' (Other 3) [] [], False, ''foo'')"
    by code_simp
  have t: "textNode example_env doc ''foo''
             = Node DocumentNode [] Zero [] [Node TextNode ''foo'' Zero [] []]"
    by code_simp
  have r1: "iterations (parseRaw_iteration example_env scriptNode) 1 ([], ''a<b>c'')
              = Some (''a<b'', ''>c'')"
    by code_simp
  have i1: "iterations (parse_iteration example_env) 1 (fooNode, ''<a></a>foo'')
              = Some (Node ElementNode ''foo'' Zero [] [Node ElementNode ''a'' (Other 1) [] []],
                      ''foo'')"
    by code_simp
  let ?div = "Node ElementNode ''div'' (Other 3) [] []"
  let ?p = "Node ElementNode ''p'' (Other 4) [] []"
  let ?script = "Node ElementNode ''script'' Script [] []"
  have d0: "iterations (parse_iteration example_env) 0 (doc, ''<div><a></a>foo'')
              = Some (doc, [] @ CHR ''<'' # CHR ''d'' # ''iv><a></a>foo'')"
    by simp
  have d1: "parseStartTag example_env (CHR ''<'' # CHR ''d'' # ''iv><a></a>foo'')
              = Inr (?div, False, ''<a></a>foo'')"
    by code_simp
  have d2: "iterations (parse_iteration example_env) 1 (?div, ''<a></a>foo'')
              = Some (Node ElementNode ''div'' (Other 3) [] [Node ElementNode ''a'' (Other 1) [] []],
                      ''foo'')"
    by code_simp
  have inner: "ends_open example_env False ?div ''<a></a>foo'' (Data ?div)"
    using d2 h by (rule ends_open.here)
  have e1: "ends_open example_env True doc ''<div><a></a>foo'' ''div''"
    using ends_open.nested[OF d0 _ _ _ d1 _ inner] by simp
  have p0: "iterations (parse_iteration example_env) 0 (doc, ''x<p><br><script>a<b>c'')
              = Some (doc, ''x'' @ CHR ''<'' # CHR ''p'' # ''><br><script>a<b>c'')"
    by simp
  have p1: "parseStartTag example_env (CHR ''<'' # CHR ''p'' # ''><br><script>a<b>c'')
              = Inr (?p, False, ''<br><script>a<b>c'')"
    by code_simp
  have p2: "iterations (parse_iteration example_env) 1 (?p, ''<br><script>a<b>c'')
              = Some (Node ElementNode ''p'' (Other 4) [] [Node ElementNode ''br'' Br [] []],
                      [] @ CHR ''<'' # CHR ''s'' # ''cript>a<b>c'')"
    by code_simp
  have p3: "parseStartTag example_env (CHR ''<'' # CHR ''s'' # ''cript>a<b>c'')
              = Inr (?script, False, ''a<b>c'')"
    by code_simp
  have p4: "iterations (parseRaw_iteration example_env ?script) 1 ([], ''a<b>c'')
              = Some (''a<b'', ''>c'')"
    by code_simp
  have in2: "ends_open example_env False ?p ''<br><script>a<b>c'' (Data ?script)"
    using ends_open.raw[OF p2 _ _ _ p3 _ p4 hc] by simp
  have e2: "ends_open example_env True doc ''x<p><br><script>a<b>c'' ''script''"
    using ends_open.nested[OF p0 _ _ _ p1 _ in2] by simp
  show ?thesis
    using unclosed_element_at_end_of_input[OF h, where e = example_env
        and parent = scriptNode and escapable = False]
      unclosed_element_at_end_of_input[OF h, where e = example_env and parent = doc
        and c = "CHR ''d''" and s = "''iv>foo''"
        and node = "Node ElementNode ''div'' (Other 3) [] []"]
      unclosed_element_at_end_of_input[OF hc, where e = example_env and parent = scriptNode
        and escapable = False and n = 1 and ?t0.0 = "''a<b>c''" and buf' = "''a<b''"]
      unclosed_element_at_end_of_input[OF h, where e = example_env and parent = fooNode
        and n = 1 and ?t0.0 = "''<a></a>foo''"
        and parent' = "Node ElementNode ''foo'' Zero [] [Node ElementNode ''a'' (Other 1) [] []]"]
      unclosed_element_at_end_of_input[OF h, where e = example_env and parent = doc
        and ?t1.0 = "''<div><a></a>foo''" and name = "''div''"]
      unclosed_element_at_end_of_input[OF h, where e = example_env and parent = doc
        and ?t1.0 = "''x<p><br><script>a<b>c''" and name = "''script''"]
      s t r1 i1 e1 e2
    by (simp add: scriptNode_def doc_def fooNode_def)
qed

text \<open>
  C4.  Tag mode at \<open></\<close> followed by a name.  For a closing tag \<open></name ws* >\<close> the
  invocation returns successfully, with the cursor after the \<open>>\<close>, if and only if the
  identity of the name equals the parent's and, when that identity is 0, the spellings
  are equal too; it never returns successfully without that match.  On a mismatch it
  returns the fatal error "Unclosed element" for its parent, and at the root it does so
  for every name.
\<close>

theorem close_tag_in_tag_mode:
  assumes "CHR ''<'' \<notin> set pre"
    and "nextIdent e rest = Inr (elemS, elemA, rest')" and "elemS \<noteq> []"
  shows "(skipSpace rest' = CHR ''>'' # after
           \<longrightarrow> (parse e False parent (pre @ ''</'' @ rest) = (textNode e parent pre, Inr after)
                 \<longleftrightarrow> elemA = DataAtom parent \<and> (elemA = Zero \<longrightarrow> elemS = Data parent)))
       \<and> ((\<exists>r. snd (parse e False parent (pre @ ''</'' @ rest)) = Inr r)
           \<longrightarrow> elemA = DataAtom parent \<and> (elemA = Zero \<longrightarrow> elemS = Data parent))
       \<and> (\<not> (elemA = DataAtom parent \<and> (elemA = Zero \<longrightarrow> elemS = Data parent))
           \<longrightarrow> parse e False parent (pre @ ''</'' @ rest)
                 = (textNode e parent pre, Inl (Error (Unclosed (Data parent)))))
       \<and> parse e True parent (pre @ ''</'' @ rest)
            = (textNode e parent pre, Inl (Error (Unclosed (Data parent))))"
proof -
  let ?p = "textNode e parent pre"
  have sk: "parse e root parent (pre @ ''</'' @ rest)
              = parse e root ?p (CHR ''<'' # CHR ''/'' # rest)" for root
    using parse_skip_text[OF assms(1), of e root parent "CHR ''/'' # rest"] by simp
  have root: "parse e True parent (pre @ ''</'' @ rest)
                = (?p, Inl (Error (Unclosed (Data parent))))"
    unfolding sk by (simp add: parse_at_close parseEndTag_root[OF assms(2,3)])
  show ?thesis
  proof (cases "elemA = DataAtom parent \<and> (elemA = Zero \<longrightarrow> elemS = Data parent)")
    case True
    have "parse e False parent (pre @ ''</'' @ rest) = (?p, Inr after)"
      if "skipSpace rest' = CHR ''>'' # after"
    proof -
      have "parseEndTag e (Some ?p) (CHR ''<'' # CHR ''/'' # rest) = Inr (True, after)"
        using parseEndTag_match[OF assms(2,3), of ?p] True that by simp
      then show ?thesis unfolding sk by (simp add: parse_at_close)
    qed
    then show ?thesis using True root by simp
  next
    case False
    then have "parseEndTag e (Some ?p) (CHR ''<'' # CHR ''/'' # rest) = Inr (False, rest')"
      using parseEndTag_mismatch[OF assms(2,3), of ?p] by auto
    then have "parse e False parent (pre @ ''</'' @ rest)
                 = (?p, Inl (Error (Unclosed (Data parent))))"
      unfolding sk by (simp add: parse_at_close)
    then show ?thesis using False root by simp
  qed
qed

theorem close_tag_in_tag_mode_witness:
  "parse example_env False fooNode ''x</FOO >y''
     = (Node ElementNode ''foo'' Zero [] [Node TextNode ''x'' Zero [] []], Inr ''y'')
   \<and> parse example_env True fooNode ''x</FOO >y''
     = (Node ElementNode ''foo'' Zero [] [Node TextNode ''x'' Zero [] []],
        Inl (Error (Unclosed ''foo'')))
   \<and> parse example_env False scriptNode ''x</FOO >y''
     = (Node ElementNode ''script'' Script [] [Node TextNode ''x'' Zero [] []],
        Inl (Error (Unclosed ''script'')))"
proof -
  have p: "CHR ''<'' \<notin> set ''x''" by simp
  have h: "nextIdent example_env ''FOO >y'' = Inr (''foo'', Zero, '' >y'')" by code_simp
  have n: "''foo'' \<noteq> []" by simp
  have s: "skipSpace '' >y'' = CHR ''>'' # ''y''" by code_simp
  have t1: "textNode example_env fooNode ''x''
              = Node ElementNode ''foo'' Zero [] [Node TextNode ''x'' Zero [] []]"
    by code_simp
  have t2: "textNode example_env scriptNode ''x''
              = Node ElementNode ''script'' Script [] [Node TextNode ''x'' Zero [] []]"
    by code_simp
  show ?thesis
    using close_tag_in_tag_mode[OF p h n, where parent = fooNode and after = "''y''"]
      close_tag_in_tag_mode[OF p h n, where parent = scriptNode and after = "''y''"] s t1 t2
    by (simp add: fooNode_def scriptNode_def)
qed

text \<open>
  C5.  An opening tag that is self-closing (whatever its tag) or whose category is void
  has no body parsed: the loop of the enclosing invocation goes on directly after the
  tag, with the same parent, neither \<open>parse\<close> nor \<open>parseRaw\<close> being called for the new
  element.  The element is created without children and is still without children in
  the tree the invocation ends with.
\<close>

theorem self_closing_and_void_have_no_body:
  assumes "c \<noteq> CHR ''/''" and "c \<noteq> CHR ''!''"
    and "parseStartTag e (CHR ''<'' # c # s) = Inr (node, selfClosing, rest)"
    and "selfClosing \<or> categorize (DataAtom node) = catVoid"
  shows "parse e root parent (CHR ''<'' # c # s) = parse e root (AppendChild parent node) rest
       \<and> Children node = []
       \<and> (\<exists>more. Children (fst (parse e root parent (CHR ''<'' # c # s)))
                    = Children parent @ node # more)"
proof -
  have body: "(if selfClosing then (node, Inr rest)
               else parse_body e (categorize (DataAtom node)) node rest) = (node, Inr rest)"
    using assms(4) by (auto simp: parse_body_def)
  have eq: "parse e root parent (CHR ''<'' # c # s)
              = parse e root (AppendChild parent node) rest"
    by (simp add: parse_at_open[OF assms(1,2)] assms(3) body)
  obtain kids where
    "fst (parse e root (AppendChild parent node) rest)
       = append_children (AppendChild parent node) kids"
    using parse_appends[of e root "AppendChild parent node" rest] by blast
  then have "Children (fst (parse e root parent (CHR ''<'' # c # s)))
               = Children parent @ node # kids"
    unfolding eq by simp
  then show ?thesis using eq parseStartTag_node[OF assms(3)] by blast
qed

theorem self_closing_and_void_have_no_body_witness:
  "parse example_env True doc ''<br>x<p/>y''
     = (Node DocumentNode [] Zero []
          [Node ElementNode ''br'' Br [] [], Node TextNode ''x'' Zero [] [],
           Node ElementNode ''p'' (Other 4) [] [], Node TextNode ''y'' Zero [] []], Inr ''y'')
   \<and> parse example_env True doc ''<br>x<p/>y''
     = parse example_env True (AppendChild doc (Node ElementNode ''br'' Br [] [])) ''x<p/>y''
   \<and> parse example_env False fooNode ''<p/>y''
     = parse example_env False (AppendChild fooNode (Node ElementNode ''p'' (Other 4) [] [])) ''y''"
proof -
  have c: "CHR ''b'' \<noteq> CHR ''/''" "CHR ''b'' \<noteq> CHR ''!''"
       "CHR ''p'' \<noteq> CHR ''/''" "CHR ''p'' \<noteq> CHR ''!''" by simp_all
  have s1: "parseStartTag example_env (CHR ''<'' # CHR ''b'' # ''r>x<p/>y'')
              = Inr (Node ElementNode ''br'' Br [] [], False, ''x<p/>y'')"
    by code_simp
  have v: "False \<or> categorize (DataAtom (Node ElementNode ''br'' Br [] [])) = catVoid"
    by simp
  have s2: "parseStartTag example_env (CHR ''<'' # CHR ''p'' # ''/>y'')
              = Inr (Node ElementNode ''p'' (Other 4) [] [], True, ''y'')"
    by code_simp
  have sc: "True \<or> categorize (DataAtom (Node ElementNode ''p'' (Other 4) [] [])) = catVoid"
    by simp
  have r: "parse example_env True doc ''<br>x<p/>y''
     = (Node DocumentNode [] Zero []
          [Node ElementNode ''br'' Br [] [], Node TextNode ''x'' Zero [] [],
           Node ElementNode ''p'' (Other 4) [] [], Node TextNode ''y'' Zero [] []], Inr ''y'')"
    by code_simp
  show ?thesis
    using self_closing_and_void_have_no_body[OF c(1,2) s1 v, where root = True and parent = doc]
      self_closing_and_void_have_no_body[OF c(3,4) s2 sc, where root = False
        and parent = fooNode] r
    by simp
qed

text \<open>
  C10.  For a reference decoder that gives a non-empty result on a non-empty chunk: in
  the tree that \<open>Parse\<close> leaves behind, whether it succeeds, returns an error or panics,
  no Text node has an empty payload (given that the tree passed in has none).  A chunk
  of zero length adds no child, and a raw or escapable raw element closed with an empty
  buffer gets no Text child.
\<close>

theorem no_empty_text_nodes:
  assumes "\<forall>s. s \<noteq> [] \<longrightarrow> UnescapeString e s \<noteq> []" and "no_empty_text parent"
  shows "no_empty_text (fst (Parse e parent t))
       \<and> textNode e parent [] = parent
       \<and> (parseEndTag e (Some node) (''</'' @ rest) = Inr (True, after)
            \<longrightarrow> parseRaw e node escapable (''</'' @ rest) = (node, Inr after))"
proof -
  obtain kids where k: "fst (parse e True parent t) = append_children parent kids"
    "\<forall>k \<in> set kids. no_empty_text k"
    using parse_appends[of e True parent t] assms(1) by blast
  have 1: "no_empty_text (fst (Parse e parent t))"
    unfolding fst_Parse k(1) using assms(2) k(2) by (simp add: no_empty_text_append_children)
  have 3: "parseRaw e node escapable (''</'' @ rest) = (node, Inr after)"
    if "parseEndTag e (Some node) (''</'' @ rest) = Inr (True, after)"
    using that by (simp add: parseRaw_def parseRaw_loop_at_close textNode_Nil)
  show ?thesis using 1 3 by (simp add: textNode_Nil)
qed

theorem no_empty_text_nodes_witness:
  "no_empty_text (fst (Parse example_env doc ''<a></a><script></script><title></title>x<''))
   \<and> Parse example_env doc ''<a></a><script></script><title></title>x<''
       = (Node DocumentNode [] Zero []
            [Node ElementNode ''a'' (Other 1) [] [], Node ElementNode ''script'' Script [] [],
             Node ElementNode ''title'' Title [] [], Node TextNode ''x'' Zero [] []],
          Some (Error EOFInOpeningTag))
   \<and> parseRaw example_env scriptNode False ''</script>'' = (scriptNode, Inr [])"
proof -
  have d: "\<forall>s. s \<noteq> [] \<longrightarrow> UnescapeString example_env s \<noteq> []"
    by (simp add: example_env_def example_decode_nonempty)
  have p: "no_empty_text doc" by (simp add: doc_def)
  have h: "parseEndTag example_env (Some scriptNode) (''</'' @ ''script>'') = Inr (True, [])"
    by code_simp
  have r: "Parse example_env doc ''<a></a><script></script><title></title>x<''
       = (Node DocumentNode [] Zero []
            [Node ElementNode ''a'' (Other 1) [] [], Node ElementNode ''script'' Script [] [],
             Node ElementNode ''title'' Title [] [], Node TextNode ''x'' Zero [] []],
          Some (Error EOFInOpeningTag))"
    by code_simp
  show ?thesis
    using no_empty_text_nodes[OF d p, where t = "''<a></a><script></script><title></title>x<''"
        and node = scriptNode and rest = "''script>''" and after = "[]" and escapable = False]
      h r
    by simp
qed

text \<open>
  C7.  After \<open><!\<close>: when the next two bytes are \<open>--\<close>, the bytes up to the first
  occurrence of \<open>-->\<close> become a Comment node; otherwise, when the identifier read by
  \<open>nextIdent\<close> (which folds ASCII case) is \<open>doctype\<close>, the bytes after it, leading
  whitespace skipped, up to the next \<open>>\<close> become a Doctype node; otherwise the bytes after
  \<open><!\<close> up to the next \<open>>\<close> become a Comment node.  The payloads are stored as they are.
  The CDATA example gives a single Comment node (its identifier \<open>[cdata[hello\<close> is not
  in the tag table).
\<close>

theorem markup_declaration:
  "(\<not> (\<exists>j < length body. HasPrefix (drop j (body @ ''-->'' @ rest)) ''-->'')
      \<longrightarrow> parse e root parent (''<!--'' @ body @ ''-->'' @ rest)
            = parse e root (AppendChild parent (Node CommentNode body Zero [] [])) rest)
   \<and> (\<not> HasPrefix x ''--'' \<and> nextIdent e x = Inr (''doctype'', a, r)
        \<and> skipSpace r = payload @ CHR ''>'' # rest \<and> CHR ''>'' \<notin> set payload
      \<longrightarrow> parse e root parent (''<!'' @ x)
            = parse e root (AppendChild parent (Node DoctypeNode payload Zero [] [])) rest)
   \<and> (\<not> HasPrefix x ''--'' \<and> (\<forall>a r. nextIdent e x \<noteq> Inr (''doctype'', a, r))
        \<and> x = payload @ CHR ''>'' # rest \<and> CHR ''>'' \<notin> set payload
      \<longrightarrow> parse e root parent (''<!'' @ x)
            = parse e root (AppendChild parent (Node CommentNode payload Zero [] [])) rest)
   \<and> (atom_Lookup e ''[cdata[hello'' = Zero
      \<longrightarrow> Parse e doc ''<![CDATA[hello world]]>''
            = (Node DocumentNode [] Zero []
                 [Node CommentNode ''[CDATA[hello world]]'' Zero [] []], None))"
proof -
  have 1: "parse e root parent (''<!--'' @ body @ ''-->'' @ rest)
            = parse e root (AppendChild parent (Node CommentNode body Zero [] [])) rest"
    if "\<not> (\<exists>j < length body. HasPrefix (drop j (body @ ''-->'' @ rest)) ''-->'')"
    using parse_declaration_comment[OF that, of e] by (simp add: parse_at_declaration)
  have 2: "parse e root parent (''<!'' @ x)
            = parse e root (AppendChild parent (Node DoctypeNode payload Zero [] [])) rest"
    if "\<not> HasPrefix x ''--''" "nextIdent e x = Inr (''doctype'', a, r)"
       "skipSpace r = payload @ CHR ''>'' # rest" "CHR ''>'' \<notin> set payload"
    using parse_declaration_doctype[OF that] by (simp add: parse_at_declaration)
  have 3: "parse e root parent (''<!'' @ x)
            = parse e root (AppendChild parent (Node CommentNode payload Zero [] [])) rest"
    if "\<not> HasPrefix x ''--''" "\<forall>a r. nextIdent e x \<noteq> Inr (''doctype'', a, r)"
       "x = payload @ CHR ''>'' # rest" "CHR ''>'' \<notin> set payload"
    using parse_declaration_other[OF that] by (simp add: parse_at_declaration)
  show ?thesis
    using 1 2 3 cdata_example[of e] by blast
qed

theorem markup_declaration_witness:
  "parse example_env True doc ''<!-- a->b --><!DocType  html>x''
     = parse example_env True (AppendChild doc (Node CommentNode '' a->b '' Zero [] []))
         ''<!DocType  html>x''
   \<and> parse example_env True doc ''<!DocType  html>x''
     = parse example_env True (AppendChild doc (Node DoctypeNode ''html'' Zero [] [])) ''x''
   \<and> parse example_env True doc ''<!ELEMENT br EMPTY>x''
     = parse example_env True (AppendChild doc (Node CommentNode ''ELEMENT br EMPTY'' Zero [] []))
         ''x''
   \<and> Parse example_env doc ''<![CDATA[hello world]]>''
     = (Node DocumentNode [] Zero [] [Node CommentNode ''[CDATA[hello world]]'' Zero [] []],
        None)
   \<and> Parse example_env doc ''<!-- a->b --><!DocType  html>x''
     = (Node DocumentNode [] Zero []
          [Node CommentNode '' a->b '' Zero [] [], Node DoctypeNode ''html'' Zero [] [],
           Node TextNode ''x'' Zero [] []], None)"
proof -
  have h1: "\<not> (\<exists>j < length '' a->b ''.
              HasPrefix (drop j ('' a->b '' @ ''-->'' @ ''<!DocType  html>x'')) ''-->'')"
    by code_simp
  have h2: "\<not> HasPrefix ''DocType  html>x'' ''--''" by code_simp
  have h3: "nextIdent example_env ''DocType  html>x'' = Inr (''doctype'', Zero, ''  html>x'')"
    by code_simp
  have h4: "skipSpace ''  html>x'' = ''html'' @ CHR ''>'' # ''x''" by code_simp
  have h5: "CHR ''>'' \<notin> set ''html''" by simp
  have h6: "\<not> HasPrefix ''ELEMENT br EMPTY>x'' ''--''" by code_simp
  have h7: "nextIdent example_env ''ELEMENT br EMPTY>x'' = Inr (''element'', Zero, '' br EMPTY>x'')"
    by code_simp
  have h8: "\<forall>a r. nextIdent example_env ''ELEMENT br EMPTY>x'' \<noteq> Inr (''doctype'', a, r)"
    unfolding h7 by simp
  have h9: "CHR ''>'' \<notin> set ''ELEMENT br EMPTY''" by simp
  have h10: "atom_Lookup example_env ''[cdata[hello'' = Zero" by code_simp
  have r: "Parse example_env doc ''<!-- a->b --><!DocType  html>x''
     = (Node DocumentNode [] Zero []
          [Node CommentNode '' a->b '' Zero [] [], Node DoctypeNode ''html'' Zero [] [],
           Node TextNode ''x'' Zero [] []], None)"
    by code_simp
  show ?thesis
    using markup_declaration[where e = example_env and root = True and parent = doc
        and body = "'' a->b ''" and rest = "''<!DocType  html>x''"]
      markup_declaration[where e = example_env and root = True and parent = doc
        and x = "''DocType  html>x''" and a = Zero and r = "''  html>x''"
        and payload = "''html''" and rest = "''x''"]
      markup_declaration[where e = example_env and root = True and parent = doc
        and x = "''ELEMENT br EMPTY>x''" and payload = "''ELEMENT br EMPTY''" and rest = "''x''"]
      h1 h2 h3 h4 h5 h6 h8 h9 h10 r
    by simp
qed

text \<open>
  C6.  Where the reference decoder is applied.  A text chunk of tag mode goes through
  \<open>textNode\<close>, which stores the decoded chunk (the chunk before a \<open><\<close>, and the rest of
  the input at the root).  When raw-text mode ends at its closing tag, the accumulated
  literal bytes \<open>lit\<close> of the input become one Text child: decoded by \<open>textNode\<close> when
  \<open>escapable\<close>, stored as they are otherwise, with no call of the decoder.  The payload
  of a Comment or Doctype node is a slice of the input and the node does not depend on
  the decoder.  In particular the script example of the test suite gives one Text child
  with the literal bytes, whatever the decoder is.
\<close>

theorem reference_decoder_use:
  "textNode e parent t =
     (if t = [] then parent
      else AppendChild parent (Node TextNode (UnescapeString e t) Zero [] []))
   \<and> (CHR ''<'' \<notin> set pre
      \<longrightarrow> parse e root parent (pre @ CHR ''<'' # xs)
            = parse e root (textNode e parent pre) (CHR ''<'' # xs))
   \<and> (IndexByte t CHR ''<'' = None
      \<longrightarrow> parse e True parent t = (textNode e parent t, Inr t))
   \<and> (parseRaw e parent escapable t = (p', Inr rest)
      \<longrightarrow> (\<exists>lit ct. t = lit @ ct @ rest
             \<and> p' = (if escapable then textNode e parent lit
                     else if lit \<noteq> []
                     then AppendChild parent (Node TextNode lit Zero [] [])
                     else parent)))
   \<and> (parse_declaration e t = Inr (node, rest)
      \<longrightarrow> (\<exists>i j. Data node = take j (drop i t))
          \<and> parse_declaration (e\<lparr>UnescapeString := d\<rparr>) t = Inr (node, rest))
   \<and> (atom_Lookup e ''script'' = Script \<and> atom_String e Script = ''script''
      \<longrightarrow> Parse e doc (''<script>a<B>'' @ CHR 0x22 # ''c&dquot;</script>'')
            = (Node DocumentNode [] Zero []
                 [Node ElementNode ''script'' Script []
                    [Node TextNode (''a<B>'' @ CHR 0x22 # ''c&dquot;'') Zero [] []]],
               None))"
proof -
  have 4: "\<exists>lit ct. t = lit @ ct @ rest
             \<and> p' = (if escapable then textNode e parent lit
                     else if lit \<noteq> []
                     then AppendChild parent (Node TextNode lit Zero [] [])
                     else parent)"
    if "parseRaw e parent escapable t = (p', Inr rest)"
    using parseRaw_loop_success[OF that[unfolded parseRaw_def]] by (simp only: append_Nil)
  have 5: "(\<exists>i j. Data node = take j (drop i t))
          \<and> parse_declaration (e\<lparr>UnescapeString := d\<rparr>) t = Inr (node, rest)"
    if "parse_declaration e t = Inr (node, rest)"
    using parse_declaration_payload[OF that] that by (simp add: parse_declaration_decoder)
  show ?thesis
    using textNode_eq[of e parent t] parse_skip_text[of pre e root parent xs]
      parse_no_tag[of t e True parent] 4 5 script_example[of e]
    by simp
qed

theorem reference_decoder_use_witness:
  "Parse example_env doc (''<script>a<B>'' @ CHR 0x22 # ''c&dquot;</script>'')
     = (Node DocumentNode [] Zero []
          [Node ElementNode ''script'' Script []
             [Node TextNode (''a<B>'' @ CHR 0x22 # ''c&dquot;'') Zero [] []]], None)
   \<and> Parse example_env doc ''<textarea>a<B>&quot;c&amp;</textarea>''
     = (Node DocumentNode [] Zero []
          [Node ElementNode ''textarea'' Textarea []
             [Node TextNode (''a<B>'' @ CHR 0x22 # ''c&'') Zero [] []]], None)
   \<and> Parse example_env doc ''a &amp; b<!--&amp;--><!DOCTYPE &amp;>''
     = (Node DocumentNode [] Zero []
          [Node TextNode ''a & b'' Zero [] [], Node CommentNode ''&amp;'' Zero [] [],
           Node DoctypeNode ''&amp;'' Zero [] []], None)"
proof -
  have h: "atom_Lookup example_env ''script'' = Script \<and> atom_String example_env Script = ''script''"
    by code_simp
  have r1: "Parse example_env doc ''<textarea>a<B>&quot;c&amp;</textarea>''
     = (Node DocumentNode [] Zero []
          [Node ElementNode ''textarea'' Textarea []
             [Node TextNode (''a<B>'' @ CHR 0x22 # ''c&'') Zero [] []]], None)"
    by code_simp
  have r2: "Parse example_env doc ''a &amp; b<!--&amp;--><!DOCTYPE &amp;>''
     = (Node DocumentNode [] Zero []
          [Node TextNode ''a & b'' Zero [] [], Node CommentNode ''&amp;'' Zero [] [],
           Node DoctypeNode ''&amp;'' Zero [] []], None)"
    by code_simp
  show ?thesis
    using reference_decoder_use[where e = example_env] h r1 r2 by simp
qed

text \<open>
  C9.  In every state that a program reaches from freshly constructed (nil) arenas by
  calls of \<open>newNode\<close> and writes through returned pointers: the next call of \<open>newNode\<close>
  on any arena returns a slot that no earlier call has returned, inside a block of the
  heap, holding the zero node; the addresses returned so far are pairwise distinct;
  slots returned by different arenas are different, so a write through a pointer of one
  arena leaves every node of another arena as it was.  With the current block exhausted,
  \<open>newNode\<close> allocates a new block of exactly 64 zeroed slots and returns its first one.
\<close>

theorem arena_newNode_fresh:
  "(case newNode (heap (exec ops (init_state h0))) (arenas (exec ops (init_state h0)) k) of
      (p, h', a') \<Rightarrow>
        p \<notin> snd ` set (handed (exec ops (init_state h0)))
        \<and> fst p < length h' \<and> snd p < length (h' ! fst p) \<and> load h' p = zeroNode)
   \<and> distinct (map snd (handed (exec ops (init_state h0))))
   \<and> (\<forall>k1 p1 k2 p2 v.
         (k1, p1) \<in> set (handed (exec ops (init_state h0)))
         \<and> (k2, p2) \<in> set (handed (exec ops (init_state h0))) \<and> k1 \<noteq> k2
         \<longrightarrow> p1 \<noteq> p2
             \<and> load (store (heap (exec ops (init_state h0))) p1 v) p2
                 = load (heap (exec ops (init_state h0))) p2)
   \<and> (len a = 0
      \<longrightarrow> newNode h a = ((length h, 0), h @ [replicate 64 zeroNode],
                          \<lparr>blk = length h, off = 1, len = 63\<rparr>))"
proof -
  let ?s = "exec ops (init_state h0)"
  have inv: "arena_inv ?s"
    by (rule exec_inv) (rule arena_inv_init)
  have d: "distinct (map snd (handed ?s))"
    using inv by (simp add: arena_inv_def)
  have sep: "p1 \<noteq> p2 \<and> load (store (heap ?s) p1 v) p2 = load (heap ?s) p2"
    if "(k1, p1) \<in> set (handed ?s)" "(k2, p2) \<in> set (handed ?s)" "k1 \<noteq> k2"
    for k1 p1 k2 p2 v
  proof -
    have "inj_on snd (set (handed ?s))" using d by (simp add: distinct_map)
    then have "(k1, p1) = (k2, p2)" if "p1 = p2"
      using inj_onD[of snd "set (handed ?s)" "(k1, p1)" "(k2, p2)"] that
        \<open>(k1, p1) \<in> set (handed ?s)\<close> \<open>(k2, p2) \<in> set (handed ?s)\<close>
      by simp
    then have "p1 \<noteq> p2" using \<open>k1 \<noteq> k2\<close> by auto
    then show ?thesis by (simp add: load_store_other)
  qed
  show ?thesis
    using newNode_fresh[OF inv, of k] d sep newNode_exhausted[of a h] by blast
qed

theorem arena_newNode_fresh_witness:
  "handed (exec [NewNode 0, NewNode 1, Write (0, 0) fooNode, NewNode 0] (init_state []))
     = [(0, (0, 0)), (1, (1, 0)), (0, (0, 1))]
   \<and> distinct (map snd
        (handed (exec [NewNode 0, NewNode 1, Write (0, 0) fooNode, NewNode 0] (init_state []))))
   \<and> newNode [replicate 64 fooNode] \<lparr>blk = 0, off = 64, len = 0\<rparr>
       = ((1, 0), [replicate 64 fooNode, replicate 64 zeroNode], \<lparr>blk = 1, off = 1, len = 63\<rparr>)"
proof -
  have h: "handed (exec [NewNode 0, NewNode 1, Write (0, 0) fooNode, NewNode 0] (init_state []))
     = [(0, (0, 0)), (1, (1, 0)), (0, (0, 1))]"
    by code_simp
  have l: "len \<lparr>blk = 0, off = 64, len = 0\<rparr> = 0" by simp
  show ?thesis
    using arena_newNode_fresh[where ops = "[NewNode 0, NewNode 1, Write (0, 0) fooNode, NewNode 0]"
        and ?h0.0 = "[]" and a = "\<lparr>blk = 0, off = 64, len = 0\<rparr>"
        and h = "[replicate 64 fooNode]"] h l
    by simp
qed

end
